theory Spec2Isabelle
  imports Complex_Main "HOL-Library.Product_Lexorder" "HOL-Library.Option_ord"
begin

section \<open>Data model of the order pipeline (\<open>load_data\<close> in app_sales.py)\<close>

text \<open>
  A Python \<open>str\<close> is a sequence of Unicode code points (the integers \<open>ord\<close> gives);
  the Korean labels of the source are written out as code points. A pandas timestamp is a count of nanoseconds. A cell
  that pandas holds as NaN or NaT is \<open>None\<close>.
\<close>

type_synonym py_str = "int list"
type_synonym timestamp = int

datatype error = UnicodeDecodeError | ParserError | EmptyDataError | IndexError | ValueError

text \<open>
  One parsed line of a CSV file, with the columns the modelled stages read:
  order id, product code, orderer contact, order date (after \<open>pd.to_datetime\<close> with
  \<open>errors='coerce'\<close>), paid amount, supply cost and address.
\<close>

record ('o, 'p, 'c) csv_row =
  order_id :: "'o option"
  product_code :: "'p option"
  contact :: "'c option"
  order_date :: "timestamp option"
  paid_cell :: "real option"
  supply_cell :: "real option"
  address :: "py_str option"

text \<open>What \<open>pd.read_csv\<close> returns: the lines, and whether the contact column exists.\<close>

record ('o, 'p, 'c) csv_table =
  has_contact :: bool
  table_rows :: "('o, 'p, 'c) csv_row list"

text \<open>A file on disk: its base name and the outcome of reading it under each encoding.\<close>

record ('o, 'p, 'c) csv_file =
  file_name :: py_str
  read_cp949 :: "error + ('o, 'p, 'c) csv_table"
  read_utf8 :: "error + ('o, 'p, 'c) csv_table"

text \<open>A line tagged with \<open>_source_file\<close>.\<close>

record ('o, 'p, 'c) order_line =
  raw :: "('o, 'p, 'c) csv_row"
  source_file :: py_str

text \<open>
  A line of the enriched table: the tagged line, the filled amounts, and the derived
  columns of the stages modelled here. A customer-level column is \<open>None\<close> where the
  left merge leaves NaN, or where the column is never created.
\<close>

record ('o, 'p, 'c) enriched_line =
  base :: "('o, 'p, 'c) order_line"
  paid_amount :: real
  supply_cost :: real
  GP :: real
  margin :: real
  region :: py_str
  segment :: "py_str option"
  purchase_interval :: "int option"
  churn_risk :: "py_str option"
  idle_days :: "int option"

record ('o, 'p, 'c) enriched_table =
  contact_column :: bool
  enriched_rows :: "('o, 'p, 'c) enriched_line list"

section \<open>Labels\<close>

definition label_etc :: py_str where
  "label_etc = [44592, 53440]"

definition seg_vip :: py_str where
  "seg_vip = [86, 73, 80, 32, 40, 52572, 50864, 49688, 41]"

definition seg_high_value :: py_str where
  "seg_high_value = [50864, 49688, 32, 44256, 44061]"

definition seg_developing :: py_str where
  "seg_developing = [51104, 51116, 32, 44256, 44061]"

definition seg_needs_attention :: py_str where
  "seg_needs_attention = [51665, 51473, 32, 44288, 47532]"

definition churn_fully_churned :: py_str where
  "churn_fully_churned = [50756, 51204, 32, 51060, 53448]"

definition churn_at_risk :: py_str where
  "churn_at_risk = [51060, 53448, 32, 50948, 54744]"

definition churn_caution :: py_str where
  "churn_caution = [51452, 51032, 32, 50836, 47581]"

definition churn_active :: py_str where
  "churn_active = [54876, 46041, 32, 44256, 44061]"

section \<open>Ingestion (lines 45-60)\<close>

definition tag_table :: "py_str \<Rightarrow> ('o, 'p, 'c) csv_table \<Rightarrow> bool \<times> ('o, 'p, 'c) order_line list" where
  "tag_table nm t = (has_contact t, map (\<lambda>r. \<lparr>raw = r, source_file = nm\<rparr>) (table_rows t))"

text \<open>
  The body of the loop: read under cp949; on any exception read under utf-8, outside
  any handler, so an exception of the second read leaves \<open>load_data\<close>.
\<close>

definition read_file :: "('o, 'p, 'c) csv_file \<Rightarrow> error + (bool \<times> ('o, 'p, 'c) order_line list)" where
  "read_file f =
     (case read_cp949 f of
        Inr t \<Rightarrow> Inr (tag_table (file_name f) t)
      | Inl _ \<Rightarrow>
          (case read_utf8 f of
             Inr t \<Rightarrow> Inr (tag_table (file_name f) t)
           | Inl e \<Rightarrow> Inl e))"

fun read_files ::
  "('o, 'p, 'c) csv_file list \<Rightarrow> (bool \<times> ('o, 'p, 'c) order_line list) list
     \<Rightarrow> error + (bool \<times> ('o, 'p, 'c) order_line list) list" where
  "read_files [] df_list = Inr df_list"
| "read_files (f # fs) df_list =
     (case read_file f of
        Inl e \<Rightarrow> Inl e
      | Inr t \<Rightarrow> read_files fs (df_list @ [t]))"

text \<open>
  \<open>pd.concat\<close>: the lines in order; the contact column exists when one frame has it, and
  is NaN on the lines of a frame without it.
\<close>

definition frame_lines :: "bool \<times> ('o, 'p, 'c) order_line list \<Rightarrow> ('o, 'p, 'c) order_line list" where
  "frame_lines fr =
     (if fst fr then snd fr
      else map (\<lambda>l. l\<lparr>raw := (raw l)\<lparr>contact := None\<rparr>\<rparr>) (snd fr))"

definition concat_frames ::
  "(bool \<times> ('o, 'p, 'c) order_line list) list \<Rightarrow> bool \<times> ('o, 'p, 'c) order_line list" where
  "concat_frames df_list = (list_ex fst df_list, concat (map frame_lines df_list))"

definition dedup_key :: "('o, 'p, 'c) order_line \<Rightarrow> 'o option \<times> 'p option" where
  "dedup_key l = (order_id (raw l), product_code (raw l))"

text \<open>
  \<open>drop_duplicates(subset=[order id, product code], keep='last')\<close>: a line is dropped
  when a later line has the same key; the others keep their order.
\<close>

fun drop_duplicates :: "('o, 'p, 'c) order_line list \<Rightarrow> ('o, 'p, 'c) order_line list" where
  "drop_duplicates [] = []"
| "drop_duplicates (l # ls) =
     (if dedup_key l \<in> set (map dedup_key ls) then drop_duplicates ls
      else l # drop_duplicates ls)"

section \<open>Financial derivation (lines 68-74)\<close>

definition fillna0 :: "real option \<Rightarrow> real" where
  "fillna0 v = (case v of None \<Rightarrow> 0 | Some x \<Rightarrow> x)"

definition paid_of :: "('o, 'p, 'c) order_line \<Rightarrow> real" where
  "paid_of l = fillna0 (paid_cell (raw l))"

definition supply_of :: "('o, 'p, 'c) order_line \<Rightarrow> real" where
  "supply_of l = fillna0 (supply_cell (raw l))"

definition gp_of :: "('o, 'p, 'c) order_line \<Rightarrow> real" where
  "gp_of l = paid_of l - supply_of l"

definition margin_of :: "('o, 'p, 'c) order_line \<Rightarrow> real" where
  "margin_of l = (if paid_of l > 0 then gp_of l / paid_of l else 0)"

section \<open>Region extraction (lines 85-89)\<close>

text \<open>The code points for which \<open>str.isspace\<close> holds, which \<open>str.split()\<close> splits at.\<close>

definition is_space :: "int \<Rightarrow> bool" where
  "is_space c \<longleftrightarrow>
     (9 \<le> c \<and> c \<le> 13) \<or> (28 \<le> c \<and> c \<le> 32) \<or> c = 133 \<or> c = 160 \<or> c = 5760 \<or>
     (8192 \<le> c \<and> c \<le> 8202) \<or> c = 8232 \<or> c = 8233 \<or> c = 8239 \<or> c = 8287 \<or> c = 12288"

text \<open>\<open>str.split()\<close> without argument: the maximal runs of non-whitespace.\<close>

fun split_acc :: "py_str \<Rightarrow> py_str \<Rightarrow> py_str list" where
  "split_acc cur [] = (if cur = [] then [] else [cur])"
| "split_acc cur (c # cs) =
     (if is_space c then (if cur = [] then split_acc [] cs else cur # split_acc [] cs)
      else split_acc (cur @ [c]) cs)"

definition py_split :: "py_str \<Rightarrow> py_str list" where
  "py_split s = split_acc [] s"

definition extract_region :: "py_str option \<Rightarrow> error + py_str" where
  "extract_region addr =
     (case addr of
        None \<Rightarrow> Inr label_etc
      | Some a \<Rightarrow>
          if a = [] then Inr label_etc
          else (case py_split a of [] \<Rightarrow> Inl IndexError | tok # _ \<Rightarrow> Inr tok))"

text \<open>\<open>Series.apply\<close>: line by line, the first exception ends the pass.\<close>

fun apply_region :: "('o, 'p, 'c) order_line list \<Rightarrow> error + py_str list" where
  "apply_region [] = Inr []"
| "apply_region (l # ls) =
     (case extract_region (address (raw l)) of
        Inl e \<Rightarrow> Inl e
      | Inr g \<Rightarrow> (case apply_region ls of Inl e \<Rightarrow> Inl e | Inr gs \<Rightarrow> Inr (g # gs)))"

section \<open>Segmentation (lines 140-145)\<close>

definition segment_customer :: "int \<Rightarrow> py_str" where
  "segment_customer tot =
     (if tot \<ge> 13 then seg_vip
      else if tot \<ge> 10 then seg_high_value
      else if tot \<ge> 7 then seg_developing
      else seg_needs_attention)"

section \<open>Customer table and RFM scores (lines 123-137)\<close>

definition day_ns :: int where
  "day_ns = 86400000000000"

text \<open>\<open>Timedelta.days\<close>: the whole days of a difference, rounded down.\<close>

definition td_days :: "int \<Rightarrow> int" where
  "td_days d = d div day_ns"

text \<open>A difference of two dates in days; NaN when either is NaT.\<close>

definition sub_days :: "timestamp option \<Rightarrow> timestamp option \<Rightarrow> int option" where
  "sub_days a b = (case (a, b) of (Some x, Some y) \<Rightarrow> Some (td_days (x - y)) | _ \<Rightarrow> None)"

text \<open>The group keys of \<open>groupby(contact)\<close>: the contacts that are not NaN, sorted, each once.\<close>

definition customers :: "('o, 'p, 'c::linorder) order_line list \<Rightarrow> 'c list" where
  "customers df = sort (remdups (List.map_filter (\<lambda>l. contact (raw l)) df))"

definition group_of :: "'c \<Rightarrow> ('o, 'p, 'c) order_line list \<Rightarrow> ('o, 'p, 'c) order_line list" where
  "group_of c df = filter (\<lambda>l. contact (raw l) = Some c) df"

text \<open>\<open>Series.max()\<close> of the order dates: NaT is skipped, and is the result when nothing is left.\<close>

definition max_date :: "('o, 'p, 'c) order_line list \<Rightarrow> timestamp option" where
  "max_date ls =
     (let ds = List.map_filter (\<lambda>l. order_date (raw l)) ls
      in if ds = [] then None else Some (Max (set ds)))"

text \<open>\<open>nunique\<close> of the order ids: NaN is not counted.\<close>

definition nunique_orders :: "('o, 'p, 'c) order_line list \<Rightarrow> nat" where
  "nunique_orders ls = length (remdups (List.map_filter (\<lambda>l. order_id (raw l)) ls))"

record 'c rfm_row =
  customer :: 'c
  Recency :: "int option"
  Frequency :: nat
  Monetary :: real

definition rfm_table :: "('o, 'p, 'c::linorder) order_line list \<Rightarrow> 'c rfm_row list" where
  "rfm_table df =
     (let ref_date = max_date df
      in map (\<lambda>c. let x = group_of c df
                  in \<lparr>customer = c,
                      Recency = sub_days ref_date (max_date x),
                      Frequency = nunique_orders x,
                      Monetary = sum_list (map paid_of x)\<rparr>)
             (customers df))"

text \<open>
  \<open>Series.rank(method='first')\<close>: the rank of a value is one more than the number of
  values below it plus the number of equal values before it; NaN keeps NaN.
\<close>

definition rank_first :: "'a::linorder option list \<Rightarrow> real option list" where
  "rank_first xs =
     map (\<lambda>i. case xs ! i of
                 None \<Rightarrow> None
               | Some v \<Rightarrow>
                   Some (real (1 + length (filter
                     (\<lambda>j. case xs ! j of None \<Rightarrow> False | Some w \<Rightarrow> w < v \<or> (w = v \<and> j < i))
                     [0..<length xs]))))
         [0..<length xs]"

text \<open>A quantile of a non-empty list by linear interpolation between the two nearest ranks.\<close>

definition quantile_linear :: "real list \<Rightarrow> real \<Rightarrow> real" where
  "quantile_linear vs q =
     (let srt = sort vs;
          pos = real (length vs - 1) * q;
          lo = nat \<lfloor>pos\<rfloor>;
          hi = min (lo + 1) (length vs - 1)
      in srt ! lo + (srt ! hi - srt ! lo) * (pos - real lo))"

text \<open>
  The bin of a value among sorted edges, intervals closed on the right: the number of
  edges below it; the lowest edge belongs to the first bin.
\<close>

definition bin_id :: "real list \<Rightarrow> real \<Rightarrow> nat" where
  "bin_id bins v = (if v = hd bins then 1 else length (filter (\<lambda>e. e < v) bins))"

text \<open>The six edges of \<open>pd.qcut(x, 5)\<close>: the quantiles 0, 0.2, .., 1 of the values.\<close>

definition qcut_bins :: "real list \<Rightarrow> real list" where
  "qcut_bins vs = map (\<lambda>k. quantile_linear vs (real k / 5)) [0..<6]"

text \<open>
  \<open>pd.qcut(x, 5, labels)\<close>: the edges are taken over the values that are not NaN; edges
  that are not unique (all NaN when no value is left) raise ValueError. A value outside
  every bin, like NaN, has no label.
\<close>

definition qcut :: "real option list \<Rightarrow> int list \<Rightarrow> error + int option list" where
  "qcut x labels =
     (let vs = List.map_filter id x
      in if vs = [] then Inl ValueError
         else let bins = qcut_bins vs
              in if \<not> distinct bins then Inl ValueError
                 else Inr (map (\<lambda>xo. case xo of
                                       None \<Rightarrow> None
                                     | Some v \<Rightarrow>
                                         (let i = bin_id bins v
                                          in if i = 0 \<or> i = length bins then None
                                             else Some (labels ! (i - 1))))
                               x))"

text \<open>\<open>.astype(int)\<close> of a categorical: NaN raises ValueError.\<close>

definition astype_int :: "int option list \<Rightarrow> error + int list" where
  "astype_int xs = (if None \<in> set xs then Inl ValueError else Inr (List.map_filter id xs))"

definition score :: "'a::linorder option list \<Rightarrow> int list \<Rightarrow> error + int list" where
  "score col labels =
     (case qcut (rank_first col) labels of Inl e \<Rightarrow> Inl e | Inr cat \<Rightarrow> astype_int cat)"

record 'c rfm_scored =
  rfm :: "'c rfm_row"
  R_score :: int
  F_score :: int
  M_score :: int

definition RFM_Total :: "'c rfm_scored \<Rightarrow> int" where
  "RFM_Total s = R_score s + F_score s + M_score s"

definition rfm_scores :: "'c rfm_row list \<Rightarrow> error + 'c rfm_scored list" where
  "rfm_scores t =
     (case score (map Recency t) [5, 4, 3, 2, 1] of
        Inl e \<Rightarrow> Inl e
      | Inr rs \<Rightarrow>
     (case score (map (\<lambda>r. Some (Frequency r)) t) [1, 2, 3, 4, 5] of
        Inl e \<Rightarrow> Inl e
      | Inr fs \<Rightarrow>
     (case score (map (\<lambda>r. Some (Monetary r)) t) [1, 2, 3, 4, 5] of
        Inl e \<Rightarrow> Inl e
      | Inr ms \<Rightarrow>
          Inr (map (\<lambda>i. \<lparr>rfm = t ! i, R_score = rs ! i, F_score = fs ! i, M_score = ms ! i\<rparr>)
                   [0..<length t]))))"

text \<open>The left merge of the segment onto the lines, by contact.\<close>

definition segment_of :: "'c rfm_scored list \<Rightarrow> 'c option \<Rightarrow> py_str option" where
  "segment_of sc k =
     (case k of
        None \<Rightarrow> None
      | Some c \<Rightarrow> map_of (map (\<lambda>s. (customer (rfm s), segment_customer (RFM_Total s))) sc) c)"

section \<open>Purchase interval (lines 179-182)\<close>

text \<open>
  \<open>sort_values([contact, order date])\<close>: a stable sort of the lines with their index,
  NaN and NaT last.
\<close>

definition sort_key_of ::
  "('o, 'p, 'c) order_line \<Rightarrow> (bool \<times> 'c option) \<times> (bool \<times> timestamp option)" where
  "sort_key_of l =
     ((contact (raw l) = None, contact (raw l)), (order_date (raw l) = None, order_date (raw l)))"

definition sort_values ::
  "('o, 'p, 'c::linorder) order_line list \<Rightarrow> (nat \<times> ('o, 'p, 'c) order_line) list" where
  "sort_values df = sort_key (\<lambda>p. sort_key_of (snd p)) (zip [0..<length df] df)"

definition sorted_group ::
  "'c::linorder \<Rightarrow> ('o, 'p, 'c) order_line list \<Rightarrow> (nat \<times> ('o, 'p, 'c) order_line) list" where
  "sorted_group c df = filter (\<lambda>p. contact (raw (snd p)) = Some c) (sort_values df)"

text \<open>\<open>shift(1)\<close> of the order dates of one group, by index.\<close>

definition shift1 :: "(nat \<times> ('o, 'p, 'c) order_line) list \<Rightarrow> (nat \<times> timestamp option) list" where
  "shift1 g = zip (map fst g) (None # map (\<lambda>p. order_date (raw (snd p))) (butlast g))"

text \<open>The previous purchase date of the line at index \<open>i\<close>; NaT outside every group.\<close>

definition prev_purchase :: "('o, 'p, 'c::linorder) order_line list \<Rightarrow> nat \<Rightarrow> timestamp option" where
  "prev_purchase df i =
     (case contact (raw (df ! i)) of
        None \<Rightarrow> None
      | Some c \<Rightarrow> (case map_of (shift1 (sorted_group c df)) i of None \<Rightarrow> None | Some d \<Rightarrow> d))"

definition interval_at :: "('o, 'p, 'c::linorder) order_line list \<Rightarrow> nat \<Rightarrow> int option" where
  "interval_at df i = sub_days (order_date (raw (df ! i))) (prev_purchase df i)"

section \<open>Churn risk (lines 185-199)\<close>

text \<open>The mean of the positive intervals of the table, 30 when there is none.\<close>

definition avg_cycle :: "('o, 'p, 'c::linorder) order_line list \<Rightarrow> real" where
  "avg_cycle df =
     (let pos = filter (\<lambda>d. d > 0) (List.map_filter (interval_at df) [0..<length df])
      in if length pos > 0 then real_of_int (sum_list pos) / real (length pos) else 30)"

text \<open>A comparison with NaN is false.\<close>

definition nan_gt :: "int option \<Rightarrow> real \<Rightarrow> bool" where
  "nan_gt d x = (case d of None \<Rightarrow> False | Some k \<Rightarrow> real_of_int k > x)"

definition classify_churn :: "real \<Rightarrow> int option \<Rightarrow> py_str" where
  "classify_churn avg days =
     (if nan_gt days (avg * 3) then churn_fully_churned
      else if nan_gt days (avg * 2) then churn_at_risk
      else if nan_gt days avg then churn_caution
      else churn_active)"

text \<open>The days without purchase of a customer: reference date minus last order date.\<close>

definition idle_of :: "('o, 'p, 'c) order_line list \<Rightarrow> 'c \<Rightarrow> int option" where
  "idle_of df c = sub_days (max_date df) (max_date (group_of c df))"

definition churn_of :: "('o, 'p, 'c::linorder) order_line list \<Rightarrow> 'c \<Rightarrow> py_str" where
  "churn_of df c = classify_churn (avg_cycle df) (idle_of df c)"

section \<open>The load\<close>

definition enrich ::
  "('o, 'p, 'c::linorder) order_line list \<Rightarrow> py_str list \<Rightarrow> 'c rfm_scored list option \<Rightarrow> nat
     \<Rightarrow> ('o, 'p, 'c) enriched_line" where
  "enrich df regions sc i =
     (let l = df ! i; k = contact (raw l)
      in \<lparr>base = l,
          paid_amount = paid_of l,
          supply_cost = supply_of l,
          GP = gp_of l,
          margin = margin_of l,
          region = regions ! i,
          segment = (case sc of None \<Rightarrow> None | Some s \<Rightarrow> segment_of s k),
          purchase_interval = (case sc of None \<Rightarrow> None | Some _ \<Rightarrow> interval_at df i),
          churn_risk = (case sc of None \<Rightarrow> None | Some _ \<Rightarrow> map_option (churn_of df) k),
          idle_days = (case sc of None \<Rightarrow> None | Some _ \<Rightarrow> Option.bind k (idle_of df))\<rparr>)"

text \<open>
  Lines 45-60 as one step: the frames read, concatenated, and deduplicated. The result
  is the flag of the contact column and the lines of \<open>df\<close>.
\<close>

definition ingest ::
  "('o, 'p, 'c) csv_file list \<Rightarrow> error + (bool \<times> ('o, 'p, 'c) order_line list)" where
  "ingest csv_files =
     (case read_files csv_files [] of
        Inl e \<Rightarrow> Inl e
      | Inr df_list \<Rightarrow>
          Inr (fst (concat_frames df_list), drop_duplicates (snd (concat_frames df_list))))"

text \<open>
  \<open>load_data\<close> on the list of CSV files found: no file gives the empty frame; then the
  files are ingested and the stages run in the order of the source. The customer stages
  run only when the contact column exists.
\<close>

definition load_data ::
  "('o, 'p, 'c::linorder) csv_file list \<Rightarrow> error + ('o, 'p, 'c) enriched_table" where
  "load_data csv_files =
     (if csv_files = [] then Inr \<lparr>contact_column = False, enriched_rows = []\<rparr>
      else
        (case ingest csv_files of
           Inl e \<Rightarrow> Inl e
         | Inr (has_col, df) \<Rightarrow>
             (case apply_region df of
                Inl e \<Rightarrow> Inl e
              | Inr regions \<Rightarrow>
                  if has_col then
                    (case rfm_scores (rfm_table df) of
                       Inl e \<Rightarrow> Inl e
                     | Inr sc \<Rightarrow>
                         Inr \<lparr>contact_column = True,
                              enriched_rows = map (enrich df regions (Some sc)) [0..<length df]\<rparr>)
                  else
                    Inr \<lparr>contact_column = False,
                         enriched_rows = map (enrich df regions None) [0..<length df]\<rparr>)))"

section \<open>Churn classification as the specification words it\<close>

text \<open>
  The mean of the strictly positive purchase intervals of the enriched table, 30 days
  when there is none, read off the purchase-interval column.
\<close>

definition mean_positive_interval :: "('o, 'p, 'c) enriched_table \<Rightarrow> real" where
  "mean_positive_interval tbl =
     (let pos = filter (\<lambda>d. 0 < d) (List.map_filter purchase_interval (enriched_rows tbl))
      in if pos = [] then 30 else real_of_int (sum_list pos) / real (length pos))"

text \<open>The label of an idle time against one, two and three times the mean.\<close>

definition churn_label_spec :: "real \<Rightarrow> int \<Rightarrow> py_str" where
  "churn_label_spec mean idle =
     (if real_of_int idle > 3 * mean then churn_fully_churned
      else if real_of_int idle > 2 * mean then churn_at_risk
      else if real_of_int idle > mean then churn_caution
      else churn_active)"

section \<open>The lines of a customer in the order of the interval stage\<close>

text \<open>The sort key of a line by order date alone: NaT last.\<close>

definition date_key :: "(nat \<times> ('o, 'p, 'c) order_line) \<Rightarrow> bool \<times> timestamp option" where
  "date_key p = (order_date (raw (snd p)) = None, order_date (raw (snd p)))"

text \<open>
  The lines of a customer in the enriched table, each with its index, as
  \<open>sort_values([contact, order date]).groupby(contact)\<close> lists them.
\<close>

definition lines_of ::
  "('o, 'p, 'c::linorder) enriched_table \<Rightarrow> 'c \<Rightarrow> (nat \<times> ('o, 'p, 'c) order_line) list" where
  "lines_of tbl c = sorted_group c (map base (enriched_rows tbl))"

section \<open>Ranks as natural numbers\<close>

text \<open>
  The rank that \<open>rank_first\<close> gives position \<open>i\<close> of a column whose cell there is not
  NaN, before the conversion to a float.
\<close>

definition rank_at :: "'a::linorder option list \<Rightarrow> nat \<Rightarrow> nat" where
  "rank_at xs i =
     1 + length (filter
           (\<lambda>j. case xs ! j of None \<Rightarrow> False
                 | Some w \<Rightarrow> w < the (xs ! i) \<or> (w = the (xs ! i) \<and> j < i))
           [0..<length xs])"

section \<open>The edges of five equal buckets\<close>

text \<open>The six quantile edges of the ranks 1 to 5m, as exact numbers.\<close>

definition five_bins :: "nat \<Rightarrow> real list" where
  "five_bins m =
     [1, real m + 4 / 5, 2 * real m + 3 / 5, 3 * real m + 2 / 5, 4 * real m + 1 / 5, 5 * real m]"

section \<open>Example tables\<close>

text \<open>Concrete lines and files, with dates given in days, on which the results below are run.\<close>

definition ex_row ::
  "nat \<Rightarrow> nat \<Rightarrow> nat option \<Rightarrow> int option \<Rightarrow> real option \<Rightarrow> real option \<Rightarrow> py_str option
     \<Rightarrow> (nat, nat, nat) csv_row" where
  "ex_row oid pc c d p s a =
     \<lparr>order_id = Some oid, product_code = Some pc, contact = c,
      order_date = map_option (\<lambda>n. n * day_ns) d, paid_cell = p, supply_cell = s, address = a\<rparr>"

text \<open>A file that reads under cp949.\<close>

definition ex_file :: "py_str \<Rightarrow> bool \<Rightarrow> (nat, nat, nat) csv_row list \<Rightarrow> (nat, nat, nat) csv_file" where
  "ex_file nm hc rs =
     \<lparr>file_name = nm, read_cp949 = Inr \<lparr>has_contact = hc, table_rows = rs\<rparr>,
      read_utf8 = Inl UnicodeDecodeError\<rparr>"

text \<open>A file without contact column: a line sold at a loss and a line with no amount paid.\<close>

definition ex_loss :: "(nat, nat, nat) csv_file" where
  "ex_loss = ex_file [97] False
     [ex_row 1 1 None (Some 1) (Some 100) (Some 150) (Some [65, 32, 66]),
      ex_row 2 1 None (Some 2) None (Some 40) None]"

text \<open>A file that reads under neither encoding, and one that reads under utf-8 only.\<close>

definition ex_unreadable :: "(nat, nat, nat) csv_file" where
  "ex_unreadable =
     \<lparr>file_name = [98], read_cp949 = Inl UnicodeDecodeError, read_utf8 = Inl UnicodeDecodeError\<rparr>"

definition ex_utf8 :: "(nat, nat, nat) csv_file" where
  "ex_utf8 =
     \<lparr>file_name = [99], read_cp949 = Inl UnicodeDecodeError,
      read_utf8 = Inr \<lparr>has_contact = False,
        table_rows = [ex_row 3 1 None (Some 3) (Some 10) (Some 4) None]\<rparr>\<rparr>"

text \<open>A file whose second line has an address of two blanks.\<close>

definition ex_blank :: "(nat, nat, nat) csv_file" where
  "ex_blank = ex_file [100] False
     [ex_row 1 1 None (Some 1) (Some 100) (Some 60) (Some [65, 32, 66]),
      ex_row 2 1 None (Some 2) (Some 100) (Some 60) (Some [32, 32])]"

text \<open>Two files that both hold the line of order 1, product 1, with different amounts.\<close>

definition ex_jan :: "(nat, nat, nat) csv_file" where
  "ex_jan = ex_file [106] False
     [ex_row 1 1 None (Some 1) (Some 100) (Some 60) None,
      ex_row 2 1 None (Some 2) (Some 70) (Some 60) None]"

definition ex_feb :: "(nat, nat, nat) csv_file" where
  "ex_feb = ex_file [102] False
     [ex_row 1 1 None (Some 1) (Some 120) (Some 60) None]"

text \<open>Five lines of two customers: customer 7 with a two-line order and a later order,
  customer 8 with one order whose line is in the file twice.\<close>

definition ex_shop :: "(nat, nat, nat) csv_file" where
  "ex_shop = ex_file [115] True
     [ex_row 1 1 (Some 7) (Some 10) (Some 5) (Some 1) (Some [65, 32, 66]),
      ex_row 1 2 (Some 7) (Some 10) (Some 6) (Some 1) (Some [65, 32, 66]),
      ex_row 2 1 (Some 7) (Some 13) (Some 6) (Some 1) (Some [65, 32, 66]),
      ex_row 3 1 (Some 8) (Some 20) (Some 9) (Some 1) (Some [67]),
      ex_row 3 1 (Some 8) (Some 21) (Some 10) (Some 1) (Some [67])]"

text \<open>A file with the contact column and a single customer.\<close>

definition ex_single :: "(nat, nat, nat) csv_file" where
  "ex_single = ex_file [111] True
     [ex_row 1 1 (Some 7) (Some 10) (Some 5) (Some 1) None,
      ex_row 2 1 (Some 7) (Some 13) (Some 6) (Some 1) None]"

text \<open>The customer table of the first file.\<close>

definition ex_shop_rfm :: "nat rfm_row list" where
  "ex_shop_rfm = rfm_table (snd (projr (ingest [ex_shop])))"

text \<open>Six customers and five customers, one line each, all of frequency 1.\<close>

definition ex_six :: "(nat, nat, nat) csv_file" where
  "ex_six = ex_file [120] True
     [ex_row 1 1 (Some 1) (Some 1) (Some 10) (Some 1) None,
      ex_row 2 1 (Some 2) (Some 2) (Some 20) (Some 1) None,
      ex_row 3 1 (Some 3) (Some 3) (Some 30) (Some 1) None,
      ex_row 4 1 (Some 4) (Some 4) (Some 40) (Some 1) None,
      ex_row 5 1 (Some 5) (Some 5) (Some 50) (Some 1) None,
      ex_row 6 1 (Some 6) (Some 6) (Some 60) (Some 1) None]"

definition ex_six_rfm :: "nat rfm_row list" where
  "ex_six_rfm = rfm_table (snd (projr (ingest [ex_six])))"

definition ex_five :: "(nat, nat, nat) csv_file" where
  "ex_five = ex_file [118] True
     [ex_row 1 1 (Some 1) (Some 1) (Some 10) (Some 1) None,
      ex_row 2 1 (Some 2) (Some 2) (Some 20) (Some 1) None,
      ex_row 3 1 (Some 3) (Some 3) (Some 30) (Some 1) None,
      ex_row 4 1 (Some 4) (Some 4) (Some 40) (Some 1) None,
      ex_row 5 1 (Some 5) (Some 5) (Some 50) (Some 1) None]"

definition ex_five_rfm :: "nat rfm_row list" where
  "ex_five_rfm = rfm_table (snd (projr (ingest [ex_five])))"

section \<open>Properties\<close>

subsection \<open>Shape of a successful load\<close>

lemma load_data_success:
  assumes "load_data fs = Inr tbl" and "fs \<noteq> []"
  obtains has_col df regions sc where
    "ingest fs = Inr (has_col, df)" and "apply_region df = Inr regions" and
    "contact_column tbl = has_col" and
    "enriched_rows tbl = map (enrich df regions sc) [0..<length df]" and
    "has_col \<Longrightarrow> \<exists>s. rfm_scores (rfm_table df) = Inr s \<and> sc = Some s" and
    "\<not> has_col \<Longrightarrow> sc = None"
  using assms
  by (auto simp: load_data_def split: if_splits sum.splits prod.splits)


subsection \<open>Gross profit and margin\<close>



subsection \<open>Segments\<close>

lemma segment_labels_distinct:
  "distinct [seg_vip, seg_high_value, seg_developing, seg_needs_attention]"
  by (simp add: seg_vip_def seg_high_value_def seg_developing_def seg_needs_attention_def)

text \<open>
  C4. The segment of a composite total: 13 and above is the VIP label, 10 to 12 the
  high-value label, 7 to 9 the developing label, below 7 the needs-attention label; the
  four labels differ.
\<close>

theorem segment_customer_bands:
  "(13 \<le> t \<longrightarrow> segment_customer t = seg_vip) \<and>
   (10 \<le> t \<and> t \<le> 12 \<longrightarrow> segment_customer t = seg_high_value) \<and>
   (7 \<le> t \<and> t \<le> 9 \<longrightarrow> segment_customer t = seg_developing) \<and>
   (t < 7 \<longrightarrow> segment_customer t = seg_needs_attention) \<and>
   distinct [seg_vip, seg_high_value, seg_developing, seg_needs_attention]"
  using segment_labels_distinct by (simp add: segment_customer_def)

text \<open>The four boundary totals 13, 12, 7 and 6.\<close>

theorem segment_customer_bands_witness:
  "segment_customer 13 = seg_vip \<and> segment_customer 12 = seg_high_value \<and>
   segment_customer 7 = seg_developing \<and> segment_customer 6 = seg_needs_attention \<and>
   seg_vip \<noteq> seg_high_value \<and> seg_high_value \<noteq> seg_developing \<and>
   seg_developing \<noteq> seg_needs_attention"
  using segment_customer_bands [of 13] segment_customer_bands [of 12]
    segment_customer_bands [of 7] segment_customer_bands [of 6]
  by simp

subsection \<open>Reading the files\<close>

lemma read_files_append:
  "read_files (xs @ ys) acc =
     (case read_files xs acc of Inl e \<Rightarrow> Inl e | Inr a \<Rightarrow> read_files ys a)"
  by (induction xs arbitrary: acc) (auto split: sum.splits)

lemma read_files_fail:
  "f \<in> set fs \<Longrightarrow> read_file f = Inl e \<Longrightarrow> \<exists>e'. read_files fs acc = Inl e'"
  by (induction fs arbitrary: acc) (auto split: sum.splits)

lemma load_data_read_error:
  "fs \<noteq> [] \<Longrightarrow> read_files fs [] = Inl e \<Longrightarrow> load_data fs = Inl e"
  by (simp add: load_data_def ingest_def)

text \<open>
  C1, as the claim has it, fails: a file that reads under neither encoding is not
  skipped. With such a file before a readable one, the load ends in the error of the
  utf-8 read, while the readable file alone loads.
\<close>

theorem unreadable_file_not_skipped:
  "load_data [ex_unreadable, ex_loss] = Inl UnicodeDecodeError \<and>
   load_data [ex_loss] = Inr (projr (load_data [ex_loss]))"
  by code_simp

text \<open>
  C1, amended. For a file whose read fails under cp949: when the read under utf-8
  succeeds, its lines are taken from that read; when it fails too, the load as a whole
  fails, and with the error of the utf-8 read when the files before it were read.
\<close>

theorem unreadable_file_fails_load:
  assumes "read_cp949 f = Inl e1"
  shows "(\<forall>t. read_utf8 f = Inr t \<longrightarrow> read_file f = Inr (tag_table (file_name f) t)) \<and>
         (read_utf8 f = Inl e2 \<and> f \<in> set fs \<longrightarrow> (\<exists>e. load_data fs = Inl e)) \<and>
         (read_utf8 f = Inl e2 \<and> read_files pre [] = Inr fr
            \<longrightarrow> load_data (pre @ f # post) = Inl e2)"
proof (intro conjI allI impI)
  fix t assume "read_utf8 f = Inr t"
  with assms show "read_file f = Inr (tag_table (file_name f) t)"
    by (simp add: read_file_def)
next
  assume h: "read_utf8 f = Inl e2 \<and> f \<in> set fs"
  with assms have "read_file f = Inl e2" by (simp add: read_file_def)
  with h obtain e where "read_files fs [] = Inl e" using read_files_fail by blast
  moreover from h have "fs \<noteq> []" by auto
  ultimately show "\<exists>e. load_data fs = Inl e" using load_data_read_error by blast
next
  assume h: "read_utf8 f = Inl e2 \<and> read_files pre [] = Inr fr"
  with assms have "read_file f = Inl e2" by (simp add: read_file_def)
  with h have "read_files (pre @ f # post) [] = Inl e2"
    by (simp add: read_files_append)
  then show "load_data (pre @ f # post) = Inl e2"
    using load_data_read_error by blast
qed

text \<open>The unreadable file after a readable one, and the file that reads under utf-8 only.\<close>

theorem unreadable_file_fails_load_witness:
  "read_cp949 ex_unreadable = Inl UnicodeDecodeError \<and>
   read_utf8 ex_unreadable = Inl UnicodeDecodeError \<and>
   read_files [ex_loss] [] = Inr (projr (read_files [ex_loss] [])) \<and>
   load_data ([ex_loss] @ ex_unreadable # [ex_utf8]) = Inl UnicodeDecodeError \<and>
   read_cp949 ex_utf8 = Inl UnicodeDecodeError \<and>
   read_utf8 ex_utf8 = Inr (projr (read_utf8 ex_utf8)) \<and>
   read_file ex_utf8 = Inr (tag_table (file_name ex_utf8) (projr (read_utf8 ex_utf8)))"
proof -
  have a: "read_cp949 ex_unreadable = Inl UnicodeDecodeError" by code_simp
  have b: "read_utf8 ex_unreadable = Inl UnicodeDecodeError" by code_simp
  have c: "read_files [ex_loss] [] = Inr (projr (read_files [ex_loss] []))" by code_simp
  have d: "read_cp949 ex_utf8 = Inl UnicodeDecodeError" by code_simp
  have e: "read_utf8 ex_utf8 = Inr (projr (read_utf8 ex_utf8))" by code_simp
  show ?thesis
    using unreadable_file_fails_load [OF a, of UnicodeDecodeError "[]" "[ex_loss]"
        "projr (read_files [ex_loss] [])" "[ex_utf8]"]
      unreadable_file_fails_load [OF d, of UnicodeDecodeError "[]" "[]" "[]" "[]"]
      a b c d e
    by blast
qed

subsection \<open>Deduplication\<close>

lemma drop_duplicates_keys:
  "set (map dedup_key (drop_duplicates df)) = set (map dedup_key df)"
  by (induction df) auto

lemma drop_duplicates_distinct: "distinct (map dedup_key (drop_duplicates df))"
proof (induction df)
  case Nil
  then show ?case by simp
next
  case (Cons l ls)
  then show ?case using drop_duplicates_keys [of ls] by auto
qed

lemma drop_duplicates_id: "distinct (map dedup_key df) \<Longrightarrow> drop_duplicates df = df"
  by (induction df) auto

lemma drop_duplicates_covered:
  "set (map dedup_key xs) \<subseteq> set (map dedup_key ys)
     \<Longrightarrow> drop_duplicates (xs @ ys) = drop_duplicates ys"
  by (induction xs) auto

lemma drop_duplicates_last:
  "k \<in> set (map dedup_key df)
     \<Longrightarrow> filter (\<lambda>l. dedup_key l = k) (drop_duplicates df)
           = [last (filter (\<lambda>l. dedup_key l = k) df)]"
proof (induction df)
  case Nil
  then show ?case by simp
next
  case (Cons l ls)
  show ?case
  proof (cases "k \<in> set (map dedup_key ls)")
    case True
    then have ne: "filter (\<lambda>l. dedup_key l = k) ls \<noteq> []"
      by (auto simp: filter_empty_conv)
    from True Cons.IH have ih: "filter (\<lambda>l. dedup_key l = k) (drop_duplicates ls)
           = [last (filter (\<lambda>l. dedup_key l = k) ls)]" by simp
    show ?thesis
    proof (cases "dedup_key l = k")
      case True
      with \<open>k \<in> set (map dedup_key ls)\<close> ih ne show ?thesis by simp
    next
      case False
      with ih ne show ?thesis by simp
    qed
  next
    case False
    with Cons.prems have kl: "dedup_key l = k" by auto
    from False have e1: "filter (\<lambda>l. dedup_key l = k) ls = []"
      by (auto simp: filter_empty_conv)
    from False have "k \<notin> set (map dedup_key (drop_duplicates ls))"
      using drop_duplicates_keys [of ls] by simp
    then have e2: "filter (\<lambda>l. dedup_key l = k) (drop_duplicates ls) = []"
      by (auto simp: filter_empty_conv)
    from kl False e1 e2 show ?thesis by simp
  qed
qed

lemma read_files_acc:
  "read_files fs acc = Inr r \<Longrightarrow> \<exists>fr. r = acc @ fr \<and> (\<forall>acc'. read_files fs acc' = Inr (acc' @ fr))"
proof (induction fs arbitrary: acc r)
  case Nil
  then show ?case by simp
next
  case (Cons f fs)
  from Cons.prems obtain t where t: "read_file f = Inr t" and r: "read_files fs (acc @ [t]) = Inr r"
    by (auto split: sum.splits)
  from Cons.IH [OF r] obtain fr where fr: "r = (acc @ [t]) @ fr"
      "\<forall>acc'. read_files fs acc' = Inr (acc' @ fr)" by blast
  show ?case
  proof (intro exI conjI allI)
    show "r = acc @ (t # fr)" using fr(1) by simp
  next
    fix acc'
    show "read_files (f # fs) acc' = Inr (acc' @ t # fr)"
      using t fr(2) by simp
  qed
qed

lemma ingest_twice: "ingest fs = Inr r \<Longrightarrow> ingest (fs @ fs) = Inr r"
proof -
  assume a: "ingest fs = Inr r"
  then obtain fr where fr: "read_files fs [] = Inr fr"
    by (auto simp: ingest_def split: sum.splits)
  from read_files_acc [OF fr] have "\<forall>acc'. read_files fs acc' = Inr (acc' @ fr)" by auto
  then have "read_files (fs @ fs) [] = Inr (fr @ fr)"
    using fr by (simp add: read_files_append)
  moreover have "drop_duplicates (snd (concat_frames (fr @ fr))) = drop_duplicates (snd (concat_frames fr))"
    by (simp add: concat_frames_def drop_duplicates_covered)
  moreover have "fst (concat_frames (fr @ fr)) = fst (concat_frames fr)"
    by (auto simp: concat_frames_def list_ex_iff)
  ultimately show ?thesis using a fr by (simp add: ingest_def)
qed

text \<open>
  C3. Deduplication on (order id, product code) is idempotent, leaves every key of the
  input exactly once, and keeps of the lines sharing a key the last one in concatenation
  order; ingesting the same files twice over gives the same lines as ingesting them once.
\<close>

theorem drop_duplicates_keep_last:
  "drop_duplicates (drop_duplicates df) = drop_duplicates df \<and>
   distinct (map dedup_key (drop_duplicates df)) \<and>
   set (map dedup_key (drop_duplicates df)) = set (map dedup_key df) \<and>
   (k \<in> set (map dedup_key df) \<longrightarrow>
      filter (\<lambda>l. dedup_key l = k) (drop_duplicates df)
        = [last (filter (\<lambda>l. dedup_key l = k) df)]) \<and>
   (ingest fs = Inr r \<longrightarrow> ingest (fs @ fs) = Inr r)"
  using drop_duplicates_id [OF drop_duplicates_distinct [of df]]
    drop_duplicates_distinct [of df] drop_duplicates_keys [of df]
    drop_duplicates_last [of k df] ingest_twice [of fs r]
  by blast

text \<open>
  Order 1, product 1 is in both files: the line of the file read last survives, after
  the line of order 2.
\<close>

theorem drop_duplicates_keep_last_witness:
  "ingest [ex_jan, ex_feb] = Inr (projr (ingest [ex_jan, ex_feb])) \<and>
   ingest ([ex_jan, ex_feb] @ [ex_jan, ex_feb]) = Inr (projr (ingest [ex_jan, ex_feb])) \<and>
   (Some 1, Some 1) \<in> set (map dedup_key (snd (concat_frames (projr (read_files [ex_jan, ex_feb] []))))) \<and>
   map (\<lambda>l. (dedup_key l, source_file l, paid_cell (raw l)))
     (snd (projr (ingest [ex_jan, ex_feb])))
     = [((Some 2, Some 1), [106], Some 70), ((Some 1, Some 1), [102], Some 120)] \<and>
   filter (\<lambda>l. dedup_key l = (Some 1, Some 1))
     (drop_duplicates (snd (concat_frames (projr (read_files [ex_jan, ex_feb] [])))))
     = [last (filter (\<lambda>l. dedup_key l = (Some 1, Some 1))
          (snd (concat_frames (projr (read_files [ex_jan, ex_feb] [])))))]"
proof -
  have a: "ingest [ex_jan, ex_feb] = Inr (projr (ingest [ex_jan, ex_feb]))" by code_simp
  have b: "(Some 1, Some 1) \<in> set (map dedup_key (snd (concat_frames (projr (read_files [ex_jan, ex_feb] [])))))"
    by code_simp
  have c: "map (\<lambda>l. (dedup_key l, source_file l, paid_cell (raw l)))
     (snd (projr (ingest [ex_jan, ex_feb])))
     = [((Some 2, Some 1), [106], Some 70), ((Some 1, Some 1), [102], Some 120)]"
    by code_simp
  show ?thesis
    using drop_duplicates_keep_last [of "snd (concat_frames (projr (read_files [ex_jan, ex_feb] [])))"
        "(Some 1, Some 1)" "[ex_jan, ex_feb]" "projr (ingest [ex_jan, ex_feb])"] a b c
    by blast
qed

subsection \<open>Region extraction\<close>

lemma split_acc_spaces: "\<forall>c\<in>set s. is_space c \<Longrightarrow> split_acc [] s = []"
  by (induction s) auto

lemma extract_region_error: "extract_region x = Inl e \<Longrightarrow> e = IndexError"
  by (auto simp: extract_region_def split: option.splits if_splits list.splits)

lemma apply_region_error:
  "l \<in> set df \<Longrightarrow> extract_region (address (raw l)) = Inl IndexError
     \<Longrightarrow> apply_region df = Inl IndexError"
proof (induction df)
  case Nil
  then show ?case by simp
next
  case (Cons x xs)
  show ?case
  proof (cases "extract_region (address (raw x))")
    case (Inl e)
    then show ?thesis using extract_region_error [OF Inl] by simp
  next
    case (Inr g)
    with Cons show ?thesis by (auto split: sum.splits)
  qed
qed

text \<open>
  C9. An address that is not empty and holds only whitespace passes the guard, splits
  into no token, and taking the first token raises IndexError, which ends the load.
\<close>

theorem whitespace_address_aborts_load:
  assumes "a \<noteq> []" and "\<forall>c\<in>set a. is_space c"
    and "fs \<noteq> []" and "ingest fs = Inr (has_col, df)"
    and "l \<in> set df" and "address (raw l) = Some a"
  shows "py_split a = [] \<and> extract_region (Some a) = Inl IndexError \<and>
         load_data fs = Inl IndexError"
proof -
  have s: "py_split a = []"
    using assms(2) by (simp add: py_split_def split_acc_spaces)
  then have e: "extract_region (Some a) = Inl IndexError"
    using assms(1) by (simp add: extract_region_def)
  then have "apply_region df = Inl IndexError"
    using apply_region_error [OF assms(5)] assms(6) by simp
  then have "load_data fs = Inl IndexError"
    using assms(3,4) by (simp add: load_data_def)
  with s e show ?thesis by simp
qed

text \<open>The file with an address of two blanks.\<close>

theorem whitespace_address_aborts_load_witness:
  "ingest [ex_blank] = Inr (False, snd (projr (ingest [ex_blank]))) \<and>
   address (raw (snd (projr (ingest [ex_blank])) ! 1)) = Some [32, 32] \<and>
   py_split [32, 32] = [] \<and> extract_region (Some [32, 32]) = Inl IndexError \<and>
   load_data [ex_blank] = Inl IndexError"
proof -
  have a: "[32, 32] \<noteq> ([] :: py_str)" by simp
  have b: "\<forall>c\<in>set [32, 32]. is_space c" by (simp add: is_space_def)
  have c: "[ex_blank] \<noteq> []" by simp
  have d: "ingest [ex_blank] = Inr (False, snd (projr (ingest [ex_blank])))" by code_simp
  have e: "snd (projr (ingest [ex_blank])) ! 1 \<in> set (snd (projr (ingest [ex_blank])))"
    by code_simp
  have f: "address (raw (snd (projr (ingest [ex_blank])) ! 1)) = Some [32, 32]" by code_simp
  show ?thesis
    using whitespace_address_aborts_load [OF a b c d e f] d f by simp
qed

subsection \<open>RFM scoring fails on fewer than two customers\<close>

lemma quantile_single: "quantile_linear [v] q = v"
  by (simp add: quantile_linear_def)

lemma upt6: "[0..<6] = [0, 1, 2, 3, 4, 5]"
  by (simp add: upt_rec)

lemma qcut_single: "qcut [x] labels = Inl ValueError"
  by (cases x) (simp_all add: qcut_def qcut_bins_def List.map_filter_simps quantile_single upt6)

lemma rank_first_length: "length (rank_first xs) = length xs"
  by (simp add: rank_first_def)

lemma score_single: "score [x] labels = Inl ValueError"
proof -
  obtain y where "rank_first [x] = [y]"
    using rank_first_length [of "[x]"] by (cases "rank_first [x]") auto
  then show ?thesis by (simp add: score_def qcut_single)
qed

lemma score_empty: "score [] labels = Inl ValueError"
  by (simp add: score_def rank_first_def qcut_def List.map_filter_simps)

lemma rfm_scores_needs_two: "rfm_scores t = Inr sc \<Longrightarrow> 2 \<le> length t"
proof (rule ccontr)
  assume a: "rfm_scores t = Inr sc" and "\<not> 2 \<le> length t"
  then have "t = [] \<or> (\<exists>r. t = [r])"
    by (cases t) (auto simp: Suc_le_eq)
  then have "rfm_scores t = Inl ValueError"
    by (auto simp: rfm_scores_def score_empty score_single)
  with a show False by simp
qed

lemma rfm_table_length: "length (rfm_table df) = length (customers df)"
  by (simp add: rfm_table_def Let_def)

lemma base_enrich: "base (enrich df regions sc i) = df ! i"
  by (simp add: enrich_def Let_def)

lemma load_data_base:
  assumes "load_data fs = Inr tbl" and "fs \<noteq> []" and "ingest fs = Inr (has_col, df)"
  shows "map base (enriched_rows tbl) = df"
  using assms
  by (auto simp: load_data_def base_enrich map_nth split: if_splits sum.splits prod.splits
      intro!: nth_equalityI)

text \<open>
  C10. With the contact column present and exactly one distinct customer, the five-way
  quantile cut has six equal edges and raises ValueError, so the load fails; a load that
  succeeds with the contact column has at least two distinct customers.
\<close>

theorem single_customer_fails_load:
  "(fs \<noteq> [] \<and> ingest fs = Inr (True, df) \<and> apply_region df = Inr regions \<and>
      length (customers df) = 1 \<longrightarrow> load_data fs = Inl ValueError) \<and>
   (load_data fs = Inr tbl \<and> contact_column tbl \<longrightarrow>
      2 \<le> length (customers (map base (enriched_rows tbl))))"
proof (intro conjI impI)
  assume a: "fs \<noteq> [] \<and> ingest fs = Inr (True, df) \<and> apply_region df = Inr regions \<and>
      length (customers df) = 1"
  then have "length (rfm_table df) = 1" by (simp add: rfm_table_length)
  then obtain r where "rfm_table df = [r]"
    by (cases "rfm_table df") auto
  then have "rfm_scores (rfm_table df) = Inl ValueError"
    by (simp add: rfm_scores_def score_single)
  with a show "load_data fs = Inl ValueError"
    by (simp add: load_data_def)
next
  assume a: "load_data fs = Inr tbl \<and> contact_column tbl"
  then have ne: "fs \<noteq> []" by (auto simp: load_data_def)
  from a have l: "load_data fs = Inr tbl" by simp
  from load_data_success [OF l ne] obtain has_col df regions sc where
    h: "ingest fs = Inr (has_col, df)" "contact_column tbl = has_col"
       "has_col \<Longrightarrow> \<exists>s. rfm_scores (rfm_table df) = Inr s \<and> sc = Some s"
    by metis
  with a obtain s where "rfm_scores (rfm_table df) = Inr s" by auto
  then have "2 \<le> length (customers df)"
    using rfm_scores_needs_two rfm_table_length by metis
  moreover have "map base (enriched_rows tbl) = df"
    using load_data_base [OF l ne h(1)] .
  ultimately show "2 \<le> length (customers (map base (enriched_rows tbl)))" by simp
qed

text \<open>The file of a single customer fails; the file of two customers loads.\<close>

theorem single_customer_fails_load_witness:
  "[ex_single] \<noteq> [] \<and>
   ingest [ex_single] = Inr (True, snd (projr (ingest [ex_single]))) \<and>
   apply_region (snd (projr (ingest [ex_single])))
     = Inr (projr (apply_region (snd (projr (ingest [ex_single]))))) \<and>
   length (customers (snd (projr (ingest [ex_single])))) = 1 \<and>
   load_data [ex_single] = Inl ValueError \<and>
   load_data [ex_shop] = Inr (projr (load_data [ex_shop])) \<and>
   contact_column (projr (load_data [ex_shop])) \<and>
   2 \<le> length (customers (map base (enriched_rows (projr (load_data [ex_shop])))))"
proof -
  have a: "ingest [ex_single] = Inr (True, snd (projr (ingest [ex_single])))" by code_simp
  have b: "apply_region (snd (projr (ingest [ex_single])))
     = Inr (projr (apply_region (snd (projr (ingest [ex_single])))))" by code_simp
  have c: "length (customers (snd (projr (ingest [ex_single])))) = 1" by code_simp
  have d: "load_data [ex_shop] = Inr (projr (load_data [ex_shop]))" by code_simp
  have e: "contact_column (projr (load_data [ex_shop]))" by code_simp
  show ?thesis
    using single_customer_fails_load [of "[ex_single]" "snd (projr (ingest [ex_single]))"
        "projr (apply_region (snd (projr (ingest [ex_single]))))"
        "projr (load_data [ex_single])"]
      single_customer_fails_load [of "[ex_shop]" "[]" "[]" "projr (load_data [ex_shop])"]
      a b c d e
    by simp
qed

subsection \<open>Monotonicity of the scores\<close>

lemma filter_length_le:
  "(\<And>x. x \<in> set xs \<Longrightarrow> P x \<Longrightarrow> Q x) \<Longrightarrow> length (filter P xs) \<le> length (filter Q xs)"
  by (induction xs) auto

lemma filter_length_less:
  "(\<And>x. x \<in> set xs \<Longrightarrow> P x \<Longrightarrow> Q x) \<Longrightarrow> y \<in> set xs \<Longrightarrow> \<not> P y \<Longrightarrow> Q y
     \<Longrightarrow> length (filter P xs) < length (filter Q xs)"
proof (induction xs)
  case Nil
  then show ?case by simp
next
  case (Cons x xs)
  show ?case
  proof (cases "y = x")
    case True
    have "length (filter P xs) \<le> length (filter Q xs)"
      using Cons.prems(1) by (intro filter_length_le) auto
    with True Cons.prems(3,4) show ?thesis by simp
  next
    case False
    with Cons.prems have "y \<in> set xs" by simp
    then have "length (filter P xs) < length (filter Q xs)"
      using Cons.IH Cons.prems by auto
    then show ?thesis using Cons.prems(1) [of x] by auto
  qed
qed


lemma rank_first_nth:
  "i < length xs \<Longrightarrow> xs ! i = Some v \<Longrightarrow> rank_first xs ! i = Some (real (rank_at xs i))"
  by (simp add: rank_first_def rank_at_def cong: option.case_cong)

lemma rank_first_None:
  "i < length xs \<Longrightarrow> xs ! i = None \<Longrightarrow> rank_first xs ! i = None"
  by (simp add: rank_first_def)

lemma rank_at_less:
  assumes "i < length xs" "j < length xs" "xs ! i = Some a" "xs ! j = Some b"
    and "a < b \<or> (a = b \<and> i < j)"
  shows "rank_at xs i < rank_at xs j"
proof -
  let ?P = "\<lambda>k. case xs ! k of None \<Rightarrow> False | Some w \<Rightarrow> w < a \<or> (w = a \<and> k < i)"
  let ?Q = "\<lambda>k. case xs ! k of None \<Rightarrow> False | Some w \<Rightarrow> w < b \<or> (w = b \<and> k < j)"
  have "length (filter ?P [0..<length xs]) < length (filter ?Q [0..<length xs])"
  proof (rule filter_length_less [where y = i])
    fix k assume "k \<in> set [0..<length xs]" "?P k"
    then show "?Q k" using assms(5) by (auto split: option.splits)
  next
    show "i \<in> set [0..<length xs]" using assms(1) by simp
    show "\<not> ?P i" using assms(3) by simp
    show "?Q i" using assms(3,5) by simp
  qed
  then show ?thesis using assms(3,4) by (simp add: rank_at_def cong: option.case_cong)
qed

lemma bin_id_mono:
  assumes "bins \<noteq> []" "hd bins \<le> v" "v \<le> w"
  shows "bin_id bins v \<le> bin_id bins w"
proof (cases "v = hd bins")
  case True
  show ?thesis
  proof (cases "w = hd bins")
    case True
    with \<open>v = hd bins\<close> show ?thesis by simp
  next
    case False
    with assms True have "hd bins < w" by simp
    moreover have "hd bins \<in> set bins" using assms(1) by simp
    ultimately have "filter (\<lambda>e. e < w) bins \<noteq> []"
      by (auto simp: filter_empty_conv)
    then have "1 \<le> length (filter (\<lambda>e. e < w) bins)"
      by (cases "filter (\<lambda>e. e < w) bins") auto
    with True False show ?thesis by (simp add: bin_id_def)
  qed
next
  case False
  with assms have "hd bins < v" by simp
  with assms have "w \<noteq> hd bins" by auto
  moreover have "length (filter (\<lambda>e. e < v) bins) \<le> length (filter (\<lambda>e. e < w) bins)"
    using assms(3) by (intro filter_length_le) auto
  ultimately show ?thesis using False by (simp add: bin_id_def)
qed

lemma quantile_zero: "vs \<noteq> [] \<Longrightarrow> quantile_linear vs 0 = sort vs ! 0"
  by (simp add: quantile_linear_def Let_def)

lemma hd_qcut_bins: "vs \<noteq> [] \<Longrightarrow> hd (qcut_bins vs) = sort vs ! 0"
  by (simp add: qcut_bins_def upt6 quantile_zero)

lemma sort_first_le:
  assumes "v \<in> set vs"
  shows "sort vs ! 0 \<le> (v::real)"
proof -
  from assms have "v \<in> set (sort vs)" by simp
  then obtain k where k: "k < length (sort vs)" "sort vs ! k = v"
    by (metis in_set_conv_nth)
  have "sorted (sort vs)" by simp
  then have "sort vs ! 0 \<le> sort vs ! k"
    using k(1) by (intro sorted_nth_mono) auto
  with k show ?thesis by simp
qed

lemma map_filter_id_set: "set (List.map_filter id xs) = {v. Some v \<in> set xs}"
  by (force simp: List.map_filter_def)

lemma map_filter_id_Some: "None \<notin> set xs \<Longrightarrow> map Some (List.map_filter id xs) = xs"
proof (induction xs)
  case Nil
  then show ?case by (simp add: List.map_filter_simps)
next
  case (Cons a xs)
  then obtain y where "a = Some y" by (cases a) auto
  with Cons show ?case by (simp add: List.map_filter_simps)
qed

lemma astype_int_success: "astype_int xs = Inr s \<Longrightarrow> map Some s = xs"
  by (auto simp: astype_int_def map_filter_id_Some split: if_splits)

lemma qcut_success:
  assumes "qcut x labels = Inr cat" and "i < length x"
  shows "length cat = length x"
    and "cat ! i = (case x ! i of None \<Rightarrow> None
           | Some v \<Rightarrow>
               if bin_id (qcut_bins (List.map_filter id x)) v = 0 \<or>
                  bin_id (qcut_bins (List.map_filter id x)) v = 6 then None
               else Some (labels ! (bin_id (qcut_bins (List.map_filter id x)) v - 1)))"
proof -
  have bl: "length (qcut_bins (List.map_filter id x)) = 6" by (simp add: qcut_bins_def)
  from assms(1) have c: "cat = map (\<lambda>xo. case xo of None \<Rightarrow> None
           | Some v \<Rightarrow>
               if bin_id (qcut_bins (List.map_filter id x)) v = 0 \<or>
                  bin_id (qcut_bins (List.map_filter id x)) v = 6 then None
               else Some (labels ! (bin_id (qcut_bins (List.map_filter id x)) v - 1))) x"
    unfolding qcut_def Let_def bl by (simp split: if_splits)
  show "length cat = length x" by (simp add: c)
  show "cat ! i = (case x ! i of None \<Rightarrow> None
           | Some v \<Rightarrow>
               if bin_id (qcut_bins (List.map_filter id x)) v = 0 \<or>
                  bin_id (qcut_bins (List.map_filter id x)) v = 6 then None
               else Some (labels ! (bin_id (qcut_bins (List.map_filter id x)) v - 1)))"
    using assms(2) by (simp add: c)
qed

lemma bin_id_le: "bin_id bins v \<le> max 1 (length bins)"
proof -
  have "length (filter (\<lambda>e. e < v) bins) \<le> length bins" by (rule length_filter_le)
  then show ?thesis by (auto simp: bin_id_def le_max_iff_disj)
qed

text \<open>What a successful scoring of a column gives at each position.\<close>

lemma score_success:
  assumes "score col labels = Inr s" and "i < length col"
  shows "length s = length col"
    and "\<exists>v. col ! i = Some v \<and>
             1 \<le> bin_id (qcut_bins (List.map_filter id (rank_first col))) (real (rank_at col i)) \<and>
             bin_id (qcut_bins (List.map_filter id (rank_first col))) (real (rank_at col i)) \<le> 5 \<and>
             s ! i = labels ! (bin_id (qcut_bins (List.map_filter id (rank_first col)))
                                 (real (rank_at col i)) - 1)"
proof -
  let ?x = "rank_first col"
  let ?bins = "qcut_bins (List.map_filter id ?x)"
  from assms(1) obtain cat where q: "qcut ?x labels = Inr cat" and a: "astype_int cat = Inr s"
    by (cases "qcut ?x labels") (auto simp: score_def)
  have ix: "i < length ?x" using assms(2) by (simp add: rank_first_length)
  note qs = qcut_success [OF q ix]
  have s2: "map Some s = cat" using astype_int_success [OF a] .
  show ls: "length s = length col"
    using s2 qs(1) rank_first_length by (metis length_map)
  have si: "cat ! i = Some (s ! i)"
    using s2 ls assms(2) by (metis nth_map)
  show "\<exists>v. col ! i = Some v \<and>
             1 \<le> bin_id ?bins (real (rank_at col i)) \<and>
             bin_id ?bins (real (rank_at col i)) \<le> 5 \<and>
             s ! i = labels ! (bin_id ?bins (real (rank_at col i)) - 1)"
  proof (cases "col ! i")
    case None
    then have "?x ! i = None" using assms(2) by (simp add: rank_first_None)
    with qs(2) si show ?thesis by simp
  next
    case (Some v)
    then have r: "?x ! i = Some (real (rank_at col i))"
      using assms(2) by (simp add: rank_first_nth)
    let ?b = "bin_id ?bins (real (rank_at col i))"
    from qs(2) si r have nz: "?b \<noteq> 0" "?b \<noteq> 6" and yy: "s ! i = labels ! (?b - 1)"
      by (auto split: if_splits)
    have "?b \<le> 6"
      using bin_id_le [of ?bins "real (rank_at col i)"] by (simp add: qcut_bins_def)
    with nz have "1 \<le> ?b" "?b \<le> 5" by auto
    with Some yy show ?thesis by simp
  qed
qed

lemma score_mono:
  assumes "score col labels = Inr s" "i < length col" "j < length col"
    and "col ! i = Some a" "col ! j = Some b" "a < b \<or> (a = b \<and> i < j)"
  shows "\<exists>bi bj. 1 \<le> bi \<and> bi \<le> bj \<and> bj \<le> (5::nat) \<and>
           s ! i = labels ! (bi - 1) \<and> s ! j = labels ! (bj - 1)"
proof -
  let ?vs = "List.map_filter id (rank_first col)"
  let ?bins = "qcut_bins ?vs"
  from score_success(2) [OF assms(1,2)] score_success(2) [OF assms(1,3)]
  have bi: "1 \<le> bin_id ?bins (real (rank_at col i))"
      "s ! i = labels ! (bin_id ?bins (real (rank_at col i)) - 1)"
    and bj: "bin_id ?bins (real (rank_at col j)) \<le> 5"
      "s ! j = labels ! (bin_id ?bins (real (rank_at col j)) - 1)"
    by auto
  have "Some (real (rank_at col i)) \<in> set (rank_first col)"
    using rank_first_nth [OF assms(2,4)] assms(2) rank_first_length
    by (metis nth_mem)
  then have mem: "real (rank_at col i) \<in> set ?vs"
    by (simp add: map_filter_id_set)
  then have ne: "?vs \<noteq> []" by auto
  have "hd ?bins \<le> real (rank_at col i)"
    using hd_qcut_bins [OF ne] sort_first_le [OF mem] by simp
  moreover have "?bins \<noteq> []" by (simp add: qcut_bins_def upt6)
  moreover have "real (rank_at col i) \<le> real (rank_at col j)"
    using rank_at_less [OF assms(2-6)] by simp
  ultimately have "bin_id ?bins (real (rank_at col i)) \<le> bin_id ?bins (real (rank_at col j))"
    by (intro bin_id_mono)
  with bi bj show ?thesis by blast
qed

lemma labels_desc: "1 \<le> b \<Longrightarrow> b \<le> (5::nat) \<Longrightarrow> [5, 4, 3, 2, 1 :: int] ! (b - 1) = 6 - int b"
proof -
  assume "1 \<le> b" "b \<le> 5"
  then have "b = 1 \<or> b = 2 \<or> b = 3 \<or> b = 4 \<or> b = 5" by auto
  then show ?thesis by auto
qed

lemma labels_asc: "1 \<le> b \<Longrightarrow> b \<le> (5::nat) \<Longrightarrow> [1, 2, 3, 4, 5 :: int] ! (b - 1) = int b"
proof -
  assume "1 \<le> b" "b \<le> 5"
  then have "b = 1 \<or> b = 2 \<or> b = 3 \<or> b = 4 \<or> b = 5" by auto
  then show ?thesis by auto
qed

lemma rfm_scores_success:
  assumes "rfm_scores t = Inr sc"
  shows "\<exists>rs fs ms.
    score (map Recency t) [5, 4, 3, 2, 1] = Inr rs \<and>
    score (map (\<lambda>r. Some (Frequency r)) t) [1, 2, 3, 4, 5] = Inr fs \<and>
    score (map (\<lambda>r. Some (Monetary r)) t) [1, 2, 3, 4, 5] = Inr ms \<and>
    sc = map (\<lambda>i. \<lparr>rfm = t ! i, R_score = rs ! i, F_score = fs ! i, M_score = ms ! i\<rparr>)
           [0..<length t]"
proof (cases "score (map Recency t) [5, 4, 3, 2, 1]")
  case (Inl e)
  with assms show ?thesis by (simp add: rfm_scores_def)
next
  case r: (Inr rs)
  show ?thesis
  proof (cases "score (map (\<lambda>r. Some (Frequency r)) t) [1, 2, 3, 4, 5]")
    case (Inl e)
    with assms r show ?thesis by (simp add: rfm_scores_def)
  next
    case f: (Inr fs)
    show ?thesis
    proof (cases "score (map (\<lambda>r. Some (Monetary r)) t) [1, 2, 3, 4, 5]")
      case (Inl e)
      with assms r f show ?thesis by (simp add: rfm_scores_def)
    next
      case m: (Inr ms)
      with assms r f show ?thesis by (simp add: rfm_scores_def)
    qed
  qed
qed

text \<open>
  C6. For two customers of one scored table: a strictly smaller recency gives a recency
  score at least as high, and a strictly greater frequency gives a frequency score at
  least as high.
\<close>

theorem rfm_scores_monotone:
  assumes "rfm_scores t = Inr sc" and "i < length t" and "j < length t"
  shows "rfm (sc ! i) = t ! i \<and> rfm (sc ! j) = t ! j \<and>
         (\<forall>a b. Recency (t ! i) = Some a \<and> Recency (t ! j) = Some b \<and> a < b
            \<longrightarrow> R_score (sc ! j) \<le> R_score (sc ! i)) \<and>
         (Frequency (t ! j) < Frequency (t ! i) \<longrightarrow> F_score (sc ! j) \<le> F_score (sc ! i))"
proof -
  from rfm_scores_success [OF assms(1)] obtain rs fs ms where
    r: "score (map Recency t) [5, 4, 3, 2, 1] = Inr rs" and
    f: "score (map (\<lambda>r. Some (Frequency r)) t) [1, 2, 3, 4, 5] = Inr fs" and
    sc: "sc = map (\<lambda>i. \<lparr>rfm = t ! i, R_score = rs ! i, F_score = fs ! i, M_score = ms ! i\<rparr>)
            [0..<length t]"
    by blast
  have p: "rfm (sc ! i) = t ! i" "rfm (sc ! j) = t ! j"
    "R_score (sc ! i) = rs ! i" "R_score (sc ! j) = rs ! j"
    "F_score (sc ! i) = fs ! i" "F_score (sc ! j) = fs ! j"
    using assms(2,3) by (simp_all add: sc)
  have rec: "R_score (sc ! j) \<le> R_score (sc ! i)"
    if h: "Recency (t ! i) = Some a" "Recency (t ! j) = Some b" "a < b" for a b
  proof -
    have li: "i < length (map Recency t)" and lj: "j < length (map Recency t)"
      using assms(2,3) by simp_all
    have ci: "map Recency t ! i = Some a" and cj: "map Recency t ! j = Some b"
      using assms(2,3) h by simp_all
    have ord: "a < b \<or> (a = b \<and> i < j)" using h(3) by simp
    from score_mono [OF r li lj ci cj ord]
    obtain bi bj where b: "1 \<le> bi" "bi \<le> bj" "bj \<le> (5::nat)"
      "rs ! i = [5, 4, 3, 2, 1] ! (bi - 1)" "rs ! j = [5, 4, 3, 2, 1] ! (bj - 1)"
      by blast
    have "rs ! i = 6 - int bi" using b labels_desc [of bi] by simp
    moreover have "rs ! j = 6 - int bj" using b labels_desc [of bj] by simp
    ultimately show ?thesis using b(2) p by simp
  qed
  have freq: "F_score (sc ! j) \<le> F_score (sc ! i)" if h: "Frequency (t ! j) < Frequency (t ! i)"
  proof -
    let ?col = "map (\<lambda>r. Some (Frequency r)) t"
    have li: "i < length ?col" and lj: "j < length ?col"
      using assms(2,3) by simp_all
    have ci: "?col ! i = Some (Frequency (t ! i))" and cj: "?col ! j = Some (Frequency (t ! j))"
      using assms(2,3) by simp_all
    have ord: "Frequency (t ! j) < Frequency (t ! i) \<or>
               (Frequency (t ! j) = Frequency (t ! i) \<and> j < i)" using h by simp
    from score_mono [OF f lj li cj ci ord]
    obtain bi bj where b: "1 \<le> bi" "bi \<le> bj" "bj \<le> (5::nat)"
      "fs ! j = [1, 2, 3, 4, 5] ! (bi - 1)" "fs ! i = [1, 2, 3, 4, 5] ! (bj - 1)"
      by blast
    have "fs ! j = int bi" using b labels_asc [of bi] by simp
    moreover have "fs ! i = int bj" using b labels_asc [of bj] by simp
    ultimately show ?thesis using b(2) p by simp
  qed
  show ?thesis using p(1,2) rec freq by blast
qed

text \<open>
  Customer 8 (recency 0, frequency 1) against customer 7 (recency 8, frequency 2).
\<close>

theorem rfm_scores_monotone_witness:
  "rfm_scores ex_shop_rfm = Inr (projr (rfm_scores ex_shop_rfm)) \<and>
   map Recency ex_shop_rfm = [Some 8, Some 0] \<and>
   map Frequency ex_shop_rfm = [2, 1] \<and>
   R_score (projr (rfm_scores ex_shop_rfm) ! 0) \<le> R_score (projr (rfm_scores ex_shop_rfm) ! 1) \<and>
   F_score (projr (rfm_scores ex_shop_rfm) ! 1) \<le> F_score (projr (rfm_scores ex_shop_rfm) ! 0)"
proof -
  have a: "rfm_scores ex_shop_rfm = Inr (projr (rfm_scores ex_shop_rfm))" by code_simp
  have l: "(0::nat) < length ex_shop_rfm" "(1::nat) < length ex_shop_rfm" by code_simp+
  have r: "map Recency ex_shop_rfm = [Some 8, Some 0]" by code_simp
  have f: "map Frequency ex_shop_rfm = [2, 1]" by code_simp
  have r0: "Recency (ex_shop_rfm ! 0) = Some 8" and r1: "Recency (ex_shop_rfm ! 1) = Some 0"
    and f0: "Frequency (ex_shop_rfm ! 0) = 2" and f1: "Frequency (ex_shop_rfm ! 1) = 1"
    by code_simp+
  show ?thesis
    using rfm_scores_monotone [OF a l(2) l(1)] rfm_scores_monotone [OF a l(1) l(2)]
      a r f r0 r1 f0 f1
    by simp
qed

subsection \<open>Churn risk\<close>

lemma map_filter_map: "List.map_filter f (map g xs) = List.map_filter (\<lambda>x. f (g x)) xs"
  by (induction xs) (auto simp: List.map_filter_simps split: option.splits)

lemma enrich_customer_columns:
  "purchase_interval (enrich df regions (Some s) i) = interval_at df i"
  "idle_days (enrich df regions (Some s) i) = Option.bind (contact (raw (df ! i))) (idle_of df)"
  "churn_risk (enrich df regions (Some s) i) = map_option (churn_of df) (contact (raw (df ! i)))"
  by (simp_all add: enrich_def Let_def)

lemma classify_churn_spec:
  "classify_churn avg (Some d) = churn_label_spec avg d"
  "classify_churn avg None = churn_active"
  by (simp_all add: classify_churn_def churn_label_spec_def nan_gt_def mult.commute)

lemma load_data_customer_table:
  assumes "load_data fs = Inr tbl" and "contact_column tbl"
  obtains df regions s where
    "map base (enriched_rows tbl) = df"
    "enriched_rows tbl = map (enrich df regions (Some s)) [0..<length df]"
    "rfm_scores (rfm_table df) = Inr s"
proof -
  from assms have ne: "fs \<noteq> []" by (auto simp: load_data_def)
  from load_data_success [OF assms(1) ne] obtain has_col df regions sc where
    h: "ingest fs = Inr (has_col, df)" "contact_column tbl = has_col"
       "enriched_rows tbl = map (enrich df regions sc) [0..<length df]"
       "has_col \<Longrightarrow> \<exists>s. rfm_scores (rfm_table df) = Inr s \<and> sc = Some s"
    by metis
  from h(2,4) assms(2) obtain s where s: "rfm_scores (rfm_table df) = Inr s" "sc = Some s"
    by auto
  have "map base (enriched_rows tbl) = df"
    using load_data_base [OF assms(1) ne h(1)] .
  then show ?thesis using that [of df regions s] h(3) s by simp
qed

lemma mean_positive_interval_avg_cycle:
  assumes "enriched_rows tbl = map (enrich df regions (Some s)) [0..<length df]"
  shows "mean_positive_interval tbl = avg_cycle df"
  by (simp add: mean_positive_interval_def avg_cycle_def assms map_filter_map
      enrich_customer_columns Let_def)

text \<open>
  C5. On every line of a customer, the idle time is the latest order date of the table
  minus the latest order date of the customer, in days, and the churn label compares it
  with the mean of the positive purchase intervals of the table (30 when there is
  none): above three times the mean fully churned, else above twice the mean at risk,
  else above the mean caution, else active. An idle time that is NaN compares false
  everywhere and gives active.
\<close>

theorem churn_relative_to_mean_interval:
  assumes "load_data fs = Inr tbl" and "contact_column tbl"
    and "e \<in> set (enriched_rows tbl)" and "contact (raw (base e)) = Some c"
  shows "idle_days e = sub_days (max_date (map base (enriched_rows tbl)))
                         (max_date (group_of c (map base (enriched_rows tbl)))) \<and>
         (\<forall>d. idle_days e = Some d \<longrightarrow>
            churn_risk e = Some (churn_label_spec (mean_positive_interval tbl) d)) \<and>
         (idle_days e = None \<longrightarrow> churn_risk e = Some churn_active)"
proof -
  from load_data_customer_table [OF assms(1,2)] obtain df regions s where
    h: "map base (enriched_rows tbl) = df"
       "enriched_rows tbl = map (enrich df regions (Some s)) [0..<length df]"
    by metis
  from assms(3) h(2) obtain i where i: "i < length df" "e = enrich df regions (Some s) i"
    by auto
  have b: "base e = df ! i" by (simp add: i base_enrich)
  with assms(4) have c: "contact (raw (df ! i)) = Some c" by simp
  have idle: "idle_days e = idle_of df c"
    by (simp add: i enrich_customer_columns c)
  have churn: "churn_risk e = Some (classify_churn (avg_cycle df) (idle_of df c))"
    by (simp add: i enrich_customer_columns c churn_of_def)
  have m: "mean_positive_interval tbl = avg_cycle df"
    using mean_positive_interval_avg_cycle [OF h(2)] .
  show ?thesis
    using idle churn m h(1) by (auto simp: idle_of_def classify_churn_spec)
qed

text \<open>
  Customer 7 of the example: the only positive interval is 3 days, the idle time is 8
  days, above twice and not above three times the mean. With a mean of 10 days, idle
  times of 35, 25, 15 and 5 days give the four labels.
\<close>

theorem churn_relative_to_mean_interval_witness:
  "load_data [ex_shop] = Inr (projr (load_data [ex_shop])) \<and>
   contact_column (projr (load_data [ex_shop])) \<and>
   contact (raw (base (enriched_rows (projr (load_data [ex_shop])) ! 0))) = Some 7 \<and>
   map purchase_interval (enriched_rows (projr (load_data [ex_shop]))) = [None, Some 0, Some 3, None] \<and>
   mean_positive_interval (projr (load_data [ex_shop])) = 3 \<and>
   idle_days (enriched_rows (projr (load_data [ex_shop])) ! 0) = Some 8 \<and>
   churn_risk (enriched_rows (projr (load_data [ex_shop])) ! 0) = Some churn_at_risk \<and>
   churn_label_spec 10 35 = churn_fully_churned \<and> churn_label_spec 10 25 = churn_at_risk \<and>
   churn_label_spec 10 15 = churn_caution \<and> churn_label_spec 10 5 = churn_active"
proof -
  have a: "load_data [ex_shop] = Inr (projr (load_data [ex_shop]))" by code_simp
  have b: "contact_column (projr (load_data [ex_shop]))" by code_simp
  have c: "enriched_rows (projr (load_data [ex_shop])) ! 0
             \<in> set (enriched_rows (projr (load_data [ex_shop])))" by code_simp
  have d: "contact (raw (base (enriched_rows (projr (load_data [ex_shop])) ! 0))) = Some 7"
    by code_simp
  have p: "map purchase_interval (enriched_rows (projr (load_data [ex_shop])))
             = [None, Some 0, Some 3, None]" by code_simp
  have m: "mean_positive_interval (projr (load_data [ex_shop])) = 3" by code_simp
  have i: "idle_days (enriched_rows (projr (load_data [ex_shop])) ! 0) = Some 8" by code_simp
  have s: "churn_label_spec 3 8 = churn_at_risk"
    "churn_label_spec 10 35 = churn_fully_churned" "churn_label_spec 10 25 = churn_at_risk"
    "churn_label_spec 10 15 = churn_caution" "churn_label_spec 10 5 = churn_active"
    by (simp_all add: churn_label_spec_def)
  show ?thesis
    using churn_relative_to_mean_interval [OF a b c d] a b d p m i s by simp
qed

subsection \<open>Purchase interval\<close>

lemma in_set_zip_upt:
  "p \<in> set (zip [0..<length xs] xs) \<longleftrightarrow> fst p < length xs \<and> snd p = xs ! fst p"
proof (cases p)
  case (Pair i x)
  have "(i, x) \<in> set (zip [0..<length xs] xs) \<longleftrightarrow> i < length xs \<and> x = xs ! i"
  proof
    assume "(i, x) \<in> set (zip [0..<length xs] xs)"
    then obtain n where "n < length xs" "[0..<length xs] ! n = i" "xs ! n = x"
      by (auto simp: in_set_zip)
    then show "i < length xs \<and> x = xs ! i" by auto
  next
    assume "i < length xs \<and> x = xs ! i"
    then have "i < length xs \<and> [0..<length xs] ! i = i \<and> xs ! i = x" by simp
    then show "(i, x) \<in> set (zip [0..<length xs] xs)"
      unfolding in_set_zip by auto
  qed
  with Pair show ?thesis by simp
qed

lemma sort_values_set:
  "p \<in> set (sort_values df) \<longleftrightarrow> fst p < length df \<and> snd p = df ! fst p"
  by (simp add: sort_values_def in_set_zip_upt)

lemma sort_values_distinct: "distinct (map fst (sort_values df))"
proof -
  have "distinct (zip [0..<length df] df)"
    by (simp add: distinct_zipI1)
  then have "distinct (sort_values df)" by (simp add: sort_values_def)
  moreover have "inj_on fst (set (sort_values df))"
    by (rule inj_onI) (auto simp: sort_values_set prod_eq_iff)
  ultimately show ?thesis by (simp add: distinct_map)
qed

lemma sorted_group_set:
  "p \<in> set (sorted_group c df) \<longleftrightarrow>
     fst p < length df \<and> snd p = df ! fst p \<and> contact (raw (snd p)) = Some c"
  by (auto simp: sorted_group_def sort_values_set)

lemma sorted_group_distinct: "distinct (map fst (sorted_group c df))"
  unfolding sorted_group_def using sort_values_distinct by (rule distinct_map_filter)

lemma sorted_group_indices:
  "set (map fst (sorted_group c df)) = {i. i < length df \<and> contact (raw (df ! i)) = Some c}"
proof (intro set_eqI iffI)
  fix i assume "i \<in> set (map fst (sorted_group c df))"
  then obtain p where "p \<in> set (sorted_group c df)" "fst p = i" by auto
  then have "i < length df" "snd p = df ! i" "contact (raw (snd p)) = Some c"
    by (auto simp: sorted_group_set)
  then show "i \<in> {i. i < length df \<and> contact (raw (df ! i)) = Some c}"
    by auto
next
  fix i assume "i \<in> {i. i < length df \<and> contact (raw (df ! i)) = Some c}"
  then have "(i, df ! i) \<in> set (sorted_group c df)" by (simp add: sorted_group_set)
  then show "i \<in> set (map fst (sorted_group c df))" by force
qed


lemma sorted_group_sorted: "sorted (map date_key (sorted_group c df))"
proof -
  let ?K = "\<lambda>p. sort_key_of (snd p)"
  let ?g = "sorted_group c df"
  have "sorted (map ?K (sort_values df))"
    unfolding sort_values_def by (rule sorted_sort_key)
  then have s: "sorted (map ?K ?g)"
    unfolding sorted_group_def by (rule sorted_filter)
  have k: "?K p = ((False, Some c), date_key p)" if "p \<in> set ?g" for p
  proof -
    from that have "contact (raw (snd p)) = Some c" by (auto simp: sorted_group_set)
    then show ?thesis by (simp add: sort_key_of_def date_key_def)
  qed
  show ?thesis
    unfolding sorted_map
  proof (rule sorted_wrt_mono_rel [OF _ s [unfolded sorted_map]])
    fix p q assume "p \<in> set ?g" "q \<in> set ?g" "?K p \<le> ?K q"
    then show "date_key p \<le> date_key q"
      using k [of p] k [of q] by (simp add: less_eq_prod_def)
  qed
qed

lemma shift1_lookup:
  assumes "distinct (map fst g)" and "k < length g"
  shows "map_of (shift1 g) (fst (g ! k))
           = Some ((None # map (\<lambda>p. order_date (raw (snd p))) (butlast g)) ! k)"
proof -
  let ?ys = "None # map (\<lambda>p. order_date (raw (snd p))) (butlast g)"
  have l: "length (map fst g) = length ?ys" using assms(2) by simp
  have "map_of (zip (map fst g) ?ys) (map fst g ! k) = Some (?ys ! k)"
    using l assms by (intro map_of_zip_nth) simp_all
  then show ?thesis using assms(2) by (simp add: shift1_def)
qed

lemma prev_purchase_group:
  assumes "k < length (sorted_group c df)"
  shows "prev_purchase df (fst (sorted_group c df ! k))
           = (None # map (\<lambda>p. order_date (raw (snd p))) (butlast (sorted_group c df))) ! k"
proof -
  let ?g = "sorted_group c df"
  have "?g ! k \<in> set ?g" using assms by simp
  then have "snd (?g ! k) = df ! fst (?g ! k)" "contact (raw (snd (?g ! k))) = Some c"
    by (auto simp: sorted_group_set)
  then have c: "contact (raw (df ! fst (?g ! k))) = Some c"
    by simp
  show ?thesis
    using shift1_lookup [OF sorted_group_distinct assms] c
    by (simp add: prev_purchase_def)
qed

lemma interval_at_group:
  assumes "k < length (sorted_group c df)"
  shows "interval_at df (fst (sorted_group c df ! k))
           = sub_days (order_date (raw (snd (sorted_group c df ! k))))
               ((None # map (\<lambda>p. order_date (raw (snd p))) (butlast (sorted_group c df))) ! k)"
proof -
  let ?g = "sorted_group c df"
  have "?g ! k \<in> set ?g" using assms by simp
  then have "df ! fst (?g ! k) = snd (?g ! k)" by (simp add: sorted_group_set)
  then show ?thesis by (simp add: interval_at_def prev_purchase_group [OF assms])
qed

lemma interval_at_first:
  assumes "sorted_group c df \<noteq> []"
  shows "interval_at df (fst (sorted_group c df ! 0)) = None"
proof -
  have "0 < length (sorted_group c df)" using assms by simp
  from interval_at_group [OF this] show ?thesis
    by (simp add: sub_days_def split: option.splits)
qed

lemma interval_at_next:
  assumes "Suc k < length (sorted_group c df)"
  shows "interval_at df (fst (sorted_group c df ! Suc k))
           = sub_days (order_date (raw (snd (sorted_group c df ! Suc k))))
               (order_date (raw (snd (sorted_group c df ! k))))"
proof -
  have "k < length (butlast (sorted_group c df))" using assms by simp
  then show ?thesis
    using interval_at_group [OF assms] by (simp add: nth_butlast)
qed

lemma sorted_wrt_by_key:
  "(\<And>v. sorted_wrt Q (filter (\<lambda>y. f y = v) xs))
     \<Longrightarrow> sorted_wrt (\<lambda>p q. f p = f q \<longrightarrow> Q p q) xs"
proof (induction xs)
  case Nil
  then show ?case by simp
next
  case (Cons x xs)
  have tl: "sorted_wrt Q (filter (\<lambda>y. f y = v) xs)" for v
    using Cons.prems [of v] by (cases "f x = v") simp_all
  have hd: "\<forall>y\<in>set xs. f x = f y \<longrightarrow> Q x y"
    using Cons.prems [of "f x"] by auto
  from Cons.IH [OF tl] hd show ?case by simp
qed

lemma zip_upt_increasing:
  "sorted_wrt (\<lambda>p q. fst p < fst q) (zip [0..<length xs] xs)"
proof -
  have "sorted_wrt (<) (map fst (zip [0..<length xs] xs))" by simp
  then show ?thesis unfolding sorted_wrt_map .
qed

lemma sorted_group_stable:
  "sorted_wrt (\<lambda>p q. sort_key_of (snd p) = sort_key_of (snd q) \<longrightarrow> fst p < fst q)
     (sorted_group c df)"
proof -
  let ?K = "\<lambda>p. sort_key_of (snd p)"
  have "sorted_wrt (\<lambda>p q. fst p < fst q) (filter (\<lambda>y. ?K y = v) (sort_values df))" for v
    unfolding sort_values_def sort_key_stable
    using zip_upt_increasing by (rule sorted_wrt_filter)
  then have "sorted_wrt (\<lambda>p q. ?K p = ?K q \<longrightarrow> fst p < fst q) (sort_values df)"
    by (rule sorted_wrt_by_key)
  then show ?thesis unfolding sorted_group_def by (rule sorted_wrt_filter)
qed

lemma sorted_group_ties:
  assumes "k < k'" and "k' < length (sorted_group c df)"
    and "order_date (raw (snd (sorted_group c df ! k)))
           = order_date (raw (snd (sorted_group c df ! k')))"
  shows "fst (sorted_group c df ! k) < fst (sorted_group c df ! k')"
proof -
  let ?g = "sorted_group c df"
  have "?g ! k \<in> set ?g" "?g ! k' \<in> set ?g" using assms(1,2) by simp_all
  then have "contact (raw (snd (?g ! k))) = Some c" "contact (raw (snd (?g ! k'))) = Some c"
    by (auto simp: sorted_group_set)
  with assms(3) have "sort_key_of (snd (?g ! k)) = sort_key_of (snd (?g ! k'))"
    by (simp add: sort_key_of_def)
  with sorted_group_stable [of c df] assms(1,2) show ?thesis
    by (auto simp: sorted_wrt_iff_nth_less)
qed

text \<open>
  C8, as the claim has it, fails: the interval is taken line by line, not order by
  order. Customer 7 of the example has a first order (order 1) of two lines; the second
  of them has the interval 0, not null.
\<close>

theorem first_order_line_with_interval:
  "load_data [ex_shop] = Inr (projr (load_data [ex_shop])) \<and>
   map (\<lambda>e. (contact (raw (base e)), order_id (raw (base e)), purchase_interval e))
     (enriched_rows (projr (load_data [ex_shop])))
     = [(Some 7, Some 1, None), (Some 7, Some 1, Some 0), (Some 7, Some 2, Some 3),
        (Some 8, Some 3, None)]"
  by code_simp

text \<open>
  C8, amended. The lines of a customer are visited sorted by order date, lines without
  date last and lines of equal date in the order of the table. The purchase interval is
  null on the first line visited, and on every later line it is the gap in whole days
  between its order date and the order date of the line visited just before it (null
  when either date is missing).
\<close>

theorem purchase_interval_by_line:
  assumes "load_data fs = Inr tbl" and "contact_column tbl"
  shows "distinct (map fst (lines_of tbl c)) \<and>
         set (map fst (lines_of tbl c))
           = {i. i < length (enriched_rows tbl) \<and>
                 contact (raw (base (enriched_rows tbl ! i))) = Some c} \<and>
         (\<forall>p \<in> set (lines_of tbl c). snd p = base (enriched_rows tbl ! fst p)) \<and>
         sorted (map date_key (lines_of tbl c)) \<and>
         (\<forall>k k'. k < k' \<and> k' < length (lines_of tbl c) \<and>
            order_date (raw (snd (lines_of tbl c ! k)))
              = order_date (raw (snd (lines_of tbl c ! k')))
            \<longrightarrow> fst (lines_of tbl c ! k) < fst (lines_of tbl c ! k')) \<and>
         (lines_of tbl c \<noteq> [] \<longrightarrow>
            purchase_interval (enriched_rows tbl ! fst (lines_of tbl c ! 0)) = None) \<and>
         (\<forall>k. Suc k < length (lines_of tbl c) \<longrightarrow>
            purchase_interval (enriched_rows tbl ! fst (lines_of tbl c ! Suc k))
              = sub_days (order_date (raw (snd (lines_of tbl c ! Suc k))))
                  (order_date (raw (snd (lines_of tbl c ! k)))))"
proof -
  from load_data_customer_table [OF assms] obtain df regions s where
    h: "map base (enriched_rows tbl) = df"
       "enriched_rows tbl = map (enrich df regions (Some s)) [0..<length df]"
    by metis
  let ?g = "sorted_group c df"
  have g: "lines_of tbl c = ?g" by (simp add: lines_of_def h(1))
  have len: "length (enriched_rows tbl) = length df" using h(2) by simp
  have row: "purchase_interval (enriched_rows tbl ! i) = interval_at df i"
       "base (enriched_rows tbl ! i) = df ! i" if "i < length df" for i
    using that by (simp_all add: h(2) enrich_customer_columns base_enrich)
  have idx: "fst (?g ! k) < length df" if "k < length ?g" for k
    using that nth_mem [OF that] by (simp add: sorted_group_set)
  have 1: "distinct (map fst ?g)" by (rule sorted_group_distinct)
  have 2: "set (map fst ?g)
           = {i. i < length (enriched_rows tbl) \<and>
                 contact (raw (base (enriched_rows tbl ! i))) = Some c}"
    unfolding sorted_group_indices len using row(2) by auto
  have 3: "\<forall>p \<in> set ?g. snd p = base (enriched_rows tbl ! fst p)"
    using row(2) by (auto simp: sorted_group_set)
  have 4: "sorted (map date_key ?g)" by (rule sorted_group_sorted)
  have 5: "?g \<noteq> [] \<longrightarrow> purchase_interval (enriched_rows tbl ! fst (?g ! 0)) = None"
  proof
    assume ne: "?g \<noteq> []"
    then have "fst (?g ! 0) < length df" using idx [of 0] by simp
    then show "purchase_interval (enriched_rows tbl ! fst (?g ! 0)) = None"
      using row(1) interval_at_first [OF ne] by simp
  qed
  have 6: "\<forall>k. Suc k < length ?g \<longrightarrow>
            purchase_interval (enriched_rows tbl ! fst (?g ! Suc k))
              = sub_days (order_date (raw (snd (?g ! Suc k)))) (order_date (raw (snd (?g ! k))))"
  proof (intro allI impI)
    fix k assume k: "Suc k < length ?g"
    then have "fst (?g ! Suc k) < length df" using idx by simp
    then show "purchase_interval (enriched_rows tbl ! fst (?g ! Suc k))
              = sub_days (order_date (raw (snd (?g ! Suc k)))) (order_date (raw (snd (?g ! k))))"
      using row(1) interval_at_next [OF k] by simp
  qed
  have 7: "\<forall>k k'. k < k' \<and> k' < length ?g \<and>
            order_date (raw (snd (?g ! k))) = order_date (raw (snd (?g ! k')))
            \<longrightarrow> fst (?g ! k) < fst (?g ! k')"
    using sorted_group_ties by blast
  show ?thesis unfolding g using 1 2 3 4 5 6 7 by blast
qed

text \<open>The three lines of customer 7: null, 0 days, 3 days.\<close>

theorem purchase_interval_by_line_witness:
  "load_data [ex_shop] = Inr (projr (load_data [ex_shop])) \<and>
   contact_column (projr (load_data [ex_shop])) \<and>
   map fst (lines_of (projr (load_data [ex_shop])) 7) = [0, 1, 2] \<and>
   map (\<lambda>p. order_date (raw (snd p))) (lines_of (projr (load_data [ex_shop])) 7)
     = [Some (10 * day_ns), Some (10 * day_ns), Some (13 * day_ns)] \<and>
   purchase_interval (enriched_rows (projr (load_data [ex_shop])) ! 0) = None \<and>
   purchase_interval (enriched_rows (projr (load_data [ex_shop])) ! 1) = Some 0 \<and>
   purchase_interval (enriched_rows (projr (load_data [ex_shop])) ! 2) = Some 3"
proof -
  let ?t = "projr (load_data [ex_shop])"
  have a: "load_data [ex_shop] = Inr ?t" by code_simp
  have b: "contact_column ?t" by code_simp
  have f: "map fst (lines_of ?t 7) = [0, 1, 2]" by code_simp
  have d: "map (\<lambda>p. order_date (raw (snd p))) (lines_of ?t 7)
     = [Some (10 * day_ns), Some (10 * day_ns), Some (13 * day_ns)]" by code_simp
  have l: "length (lines_of ?t 7) = 3" using f by (metis length_map length_Cons list.size(3) numeral_3_eq_3)
  have ne: "lines_of ?t 7 \<noteq> []" using l by auto
  have n: "fst (lines_of ?t 7 ! 0) = 0" "fst (lines_of ?t 7 ! Suc 0) = 1"
    "fst (lines_of ?t 7 ! Suc (Suc 0)) = 2"
    using f l by (metis nth_map nth_Cons_0 nth_Cons_Suc zero_less_numeral numeral_3_eq_3
        lessI less_SucI zero_less_Suc)+
  have dd: "order_date (raw (snd (lines_of ?t 7 ! 0))) = Some (10 * day_ns)"
    "order_date (raw (snd (lines_of ?t 7 ! Suc 0))) = Some (10 * day_ns)"
    "order_date (raw (snd (lines_of ?t 7 ! Suc (Suc 0)))) = Some (13 * day_ns)"
    by code_simp+
  have s: "sub_days (Some (10 * day_ns)) (Some (10 * day_ns)) = Some 0"
    "sub_days (Some (13 * day_ns)) (Some (10 * day_ns)) = Some 3"
    by code_simp+
  have k: "Suc 0 < length (lines_of ?t 7)" "Suc (Suc 0) < length (lines_of ?t 7)"
    using l by simp_all
  from purchase_interval_by_line [OF a b, of 7]
  have "purchase_interval (enriched_rows ?t ! fst (lines_of ?t 7 ! 0)) = None"
    and "purchase_interval (enriched_rows ?t ! fst (lines_of ?t 7 ! Suc 0))
              = sub_days (order_date (raw (snd (lines_of ?t 7 ! Suc 0))))
                  (order_date (raw (snd (lines_of ?t 7 ! 0))))"
    and "purchase_interval (enriched_rows ?t ! fst (lines_of ?t 7 ! Suc (Suc 0)))
              = sub_days (order_date (raw (snd (lines_of ?t 7 ! Suc (Suc 0)))))
                  (order_date (raw (snd (lines_of ?t 7 ! Suc 0))))"
    using ne k by blast+
  then show ?thesis using a b f d n dd s by simp
qed

subsection \<open>Sizes of the score buckets\<close>

lemma rank_at_bounds:
  assumes "i < length xs" and "xs ! i = Some v"
  shows "1 \<le> rank_at xs i \<and> rank_at xs i \<le> length xs"
proof -
  let ?P = "\<lambda>j. case xs ! j of None \<Rightarrow> False
                 | Some w \<Rightarrow> w < the (xs ! i) \<or> (w = the (xs ! i) \<and> j < i)"
  have "i \<in> set [0..<length xs]" using assms(1) by simp
  moreover have "\<not> ?P i" using assms(2) by simp
  ultimately have "length (filter ?P [0..<length xs]) < length [0..<length xs]"
    by (rule length_filter_less)
  then show ?thesis by (simp add: rank_at_def)
qed

lemma rank_at_inj:
  assumes "\<forall>i < length xs. xs ! i \<noteq> None"
  shows "inj_on (rank_at xs) {0..<length xs}"
proof (rule inj_onI)
  fix i j assume ij: "i \<in> {0..<length xs}" "j \<in> {0..<length xs}"
    and eq: "rank_at xs i = rank_at xs j"
  from ij have lt: "i < length xs" "j < length xs" by simp_all
  from lt(1) assms obtain a where a: "xs ! i = Some a" by auto
  from lt(2) assms obtain b where b: "xs ! j = Some b" by auto
  note ab = a b
  show "i = j"
  proof (rule ccontr)
    assume "i \<noteq> j"
    then have "(a < b \<or> (a = b \<and> i < j)) \<or> (b < a \<or> (b = a \<and> j < i))" by auto
    then have "rank_at xs i < rank_at xs j \<or> rank_at xs j < rank_at xs i"
      using rank_at_less [of i xs j a b] rank_at_less [of j xs i b a] ij ab by auto
    with eq show False by simp
  qed
qed

lemma rank_at_image:
  assumes "\<forall>i < length xs. xs ! i \<noteq> None"
  shows "rank_at xs ` {0..<length xs} = {1..length xs}"
proof (rule card_subset_eq)
  show "finite {1..length xs}" by simp
  show "rank_at xs ` {0..<length xs} \<subseteq> {1..length xs}"
    using assms rank_at_bounds by fastforce
  show "card (rank_at xs ` {0..<length xs}) = card {1..length xs}"
    using card_image [OF rank_at_inj [OF assms]] by simp
qed

lemma rank_first_all_Some:
  assumes "\<forall>i < length xs. xs ! i \<noteq> None"
  shows "rank_first xs = map (\<lambda>i. Some (real (rank_at xs i))) [0..<length xs]"
proof (rule nth_equalityI)
  show "length (rank_first xs) = length (map (\<lambda>i. Some (real (rank_at xs i))) [0..<length xs])"
    by (simp add: rank_first_length)
next
  fix i assume "i < length (rank_first xs)"
  then have i: "i < length xs" by (simp add: rank_first_length)
  with assms obtain v where "xs ! i = Some v" by auto
  with i show "rank_first xs ! i = map (\<lambda>i. Some (real (rank_at xs i))) [0..<length xs] ! i"
    by (simp add: rank_first_nth)
qed

lemma rank_values:
  assumes "\<forall>i < length xs. xs ! i \<noteq> None"
  shows "List.map_filter id (rank_first xs) = map (\<lambda>i. real (rank_at xs i)) [0..<length xs]"
  unfolding rank_first_all_Some [OF assms]
  by (induction "[0..<length xs]" arbitrary: xs rule: rev_induct)
     (simp_all add: List.map_filter_def o_def)

lemma sorted_ranks:
  assumes "\<forall>i < length xs. xs ! i \<noteq> None"
  shows "sort (map (\<lambda>i. real (rank_at xs i)) [0..<length xs]) = map real [1..<Suc (length xs)]"
proof (rule sorted_distinct_set_unique)
  let ?vs = "map (\<lambda>i. real (rank_at xs i)) [0..<length xs]"
  show "sorted (sort ?vs)" by simp
  have "distinct (map (rank_at xs) [0..<length xs])"
    using rank_at_inj [OF assms] by (simp add: distinct_map)
  then have "distinct (map real (map (rank_at xs) [0..<length xs]))"
    by (simp add: distinct_map inj_on_def)
  then show "distinct (sort ?vs)" by (simp add: o_def)
  show "sorted (map real [1..<Suc (length xs)])"
    unfolding sorted_map of_nat_le_iff by (rule sorted_upt)
  show "distinct (map real [1..<Suc (length xs)])"
    by (simp add: distinct_map inj_on_def)
  have "set ?vs = real ` (rank_at xs ` {0..<length xs})" by auto
  also have "\<dots> = real ` {1..length xs}" by (simp add: rank_at_image [OF assms])
  also have "\<dots> = set (map real [1..<Suc (length xs)])" by (auto simp: image_iff)
  finally show "set (sort ?vs) = set (map real [1..<Suc (length xs)])" by simp
qed

lemma quantile_inner:
  assumes m: "0 < m" and srt: "sort vs = map real [1..<Suc (5 * m)]"
    and j: "1 \<le> j" "j \<le> 4"
  shows "quantile_linear vs (real j / 5) = real (m * j) + 1 - real j / 5"
proof -
  have len: "length vs = 5 * m"
    using arg_cong [OF srt, of length] by simp
  have nth: "sort vs ! k = real (Suc k)" if "k < 5 * m" for k
    using that by (simp add: srt nth_append del: upt_Suc)
  define pos where "pos = real (length vs - 1) * (real j / 5)"
  have mj: "1 \<le> m * j" using m j(1) by (simp add: Suc_le_eq)
  have mj4: "m * j \<le> 4 * m" using j(2) by simp
  have pos: "pos = real (m * j) - real j / 5"
    unfolding pos_def using m by (simp add: len of_nat_diff field_simps)
  have "\<lfloor>pos\<rfloor> = int (m * j) - 1"
  proof (rule floor_unique)
    show "of_int (int (m * j) - 1) \<le> pos" unfolding pos using j(2) by simp
    show "pos < of_int (int (m * j) - 1) + 1" unfolding pos using j(1) by simp
  qed
  moreover have "nat (int (m * j) - 1) = m * j - 1" by linarith
  ultimately have lo: "nat \<lfloor>pos\<rfloor> = m * j - 1" by simp
  have le: "m * j \<le> 5 * m - 1" using mj4 m by linarith
  have "m * j - 1 + 1 = m * j" using mj by linarith
  then have hi: "min (m * j - 1 + 1) (length vs - 1) = m * j"
    unfolding len using le by (simp only: min_def if_True)
  have lt1: "m * j - 1 < 5 * m" and lt2: "m * j < 5 * m" using le m by linarith+
  have sc: "Suc (m * j - 1) = m * j" using mj by linarith
  have a: "sort vs ! (m * j - 1) = real (m * j)"
    using nth [OF lt1] unfolding sc .
  have b: "sort vs ! (m * j) = real (m * j) + 1"
    using nth [OF lt2] by simp
  have r: "real (m * j - 1) = real (m * j) - 1" using mj by (simp add: of_nat_diff)
  have "quantile_linear vs (real j / 5)
          = sort vs ! (m * j - 1)
            + (sort vs ! (m * j) - sort vs ! (m * j - 1)) * (pos - real (m * j - 1))"
    unfolding quantile_linear_def Let_def pos_def [symmetric] lo hi ..
  also have "\<dots> = real (m * j) + 1 - real j / 5"
    unfolding a b pos r by simp
  finally show ?thesis .
qed

lemma quantile_top:
  assumes m: "0 < m" and srt: "sort vs = map real [1..<Suc (5 * m)]"
  shows "quantile_linear vs 1 = 5 * real m"
proof -
  have len: "length vs = 5 * m"
    using arg_cong [OF srt, of length] by simp
  have nth: "sort vs ! k = real (Suc k)" if "k < 5 * m" for k
    using that by (simp add: srt nth_append del: upt_Suc)
  have lo: "nat \<lfloor>real (length vs - 1) * 1\<rfloor> = 5 * m - 1" by (simp add: len)
  have hi: "min (5 * m - 1 + 1) (length vs - 1) = 5 * m - 1" by (simp add: len)
  have lt: "5 * m - 1 < 5 * m" and sc: "Suc (5 * m - 1) = 5 * m" using m by linarith+
  have a: "sort vs ! (5 * m - 1) = 5 * real m"
    using nth [OF lt] unfolding sc by simp
  have "quantile_linear vs 1
          = sort vs ! (5 * m - 1)
            + (sort vs ! (5 * m - 1) - sort vs ! (5 * m - 1))
              * (real (length vs - 1) * 1 - real (5 * m - 1))"
    unfolding quantile_linear_def Let_def lo hi ..
  then show ?thesis using a by simp
qed

lemma qcut_bins_five:
  assumes m: "0 < m" and srt: "sort vs = map real [1..<Suc (5 * m)]"
  shows "qcut_bins vs =
           [1, real m + 4 / 5, 2 * real m + 3 / 5, 3 * real m + 2 / 5, 4 * real m + 1 / 5,
            5 * real m]"
proof -
  have ne: "vs \<noteq> []" using arg_cong [OF srt, of length] m by auto
  have nth0: "sort vs ! 0 = 1" using m by (simp add: srt nth_append del: upt_Suc)
  have q0: "quantile_linear vs 0 = 1" using quantile_zero [OF ne] nth0 by simp
  have q1: "quantile_linear vs (1 / 5) = real m + 4 / 5"
    using quantile_inner [OF m srt, of 1] by simp
  have q2: "quantile_linear vs (2 / 5) = 2 * real m + 3 / 5"
    using quantile_inner [OF m srt, of 2] by simp
  have q3: "quantile_linear vs (3 / 5) = 3 * real m + 2 / 5"
    using quantile_inner [OF m srt, of 3] by simp
  have q4: "quantile_linear vs (4 / 5) = 4 * real m + 1 / 5"
    using quantile_inner [OF m srt, of 4] by simp
  have q5: "quantile_linear vs 1 = 5 * real m" using quantile_top [OF m srt] .
  show ?thesis
    by (simp add: qcut_bins_def upt6 q0 q1 q2 q3 q4 q5)
qed

lemma real_frac_less:
  assumes "0 < c" and "c < 1"
  shows "(real a + c < real r) = (a < r)"
proof
  assume "real a + c < real r"
  with assms(1) have "real a < real r" by linarith
  then show "a < r" by simp
next
  assume "a < r"
  then have "Suc a \<le> r" by simp
  then have "real (Suc a) \<le> real r" by (simp only: of_nat_le_iff)
  then have "real a + 1 \<le> real r" by simp
  with assms(2) show "real a + c < real r" by linarith
qed


lemma bin_id_five:
  assumes "0 < m" and "1 \<le> r" and "r \<le> 5 * m"
  shows "bin_id (five_bins m) (real r) =
           1 + (if m < r then 1 else 0) + (if 2 * m < r then 1 else 0)
             + (if 3 * m < r then 1 else 0) + (if 4 * m < r then 1 else 0)"
proof -
  have e1: "(real m + 4 / 5 < real r) = (m < r)"
    by (rule real_frac_less) simp_all
  have e2: "(2 * real m + 3 / 5 < real r) = (2 * m < r)"
    using real_frac_less [of "3 / 5" "2 * m" r] by simp
  have e3: "(3 * real m + 2 / 5 < real r) = (3 * m < r)"
    using real_frac_less [of "2 / 5" "3 * m" r] by simp
  have e4: "(4 * real m + 1 / 5 < real r) = (4 * m < r)"
    using real_frac_less [of "1 / 5" "4 * m" r] by simp
  have e5: "(5 * real m < real r) = False"
    using assms(3) by (metis not_less of_nat_le_iff of_nat_mult of_nat_numeral)
  have e0: "(1 < real r) = (1 < r)" by simp
  show ?thesis
  proof (cases "r = 1")
    case True
    with assms(1) show ?thesis by (simp add: bin_id_def five_bins_def)
  next
    case False
    with assms(2) have "1 < r" by simp
    moreover from False have "real r \<noteq> 1" by simp
    ultimately show ?thesis
      by (simp add: bin_id_def five_bins_def e1 e2 e3 e4 e5)
  qed
qed

lemma bin_id_five_range:
  assumes "0 < m" and "1 \<le> r" and "r \<le> 5 * m"
  shows "1 \<le> bin_id (five_bins m) (real r) \<and> bin_id (five_bins m) (real r) \<le> 5"
  unfolding bin_id_five [OF assms] by simp

lemma bin_id_five_iff:
  assumes "0 < m" and "1 \<le> r" and "r \<le> 5 * m" and "1 \<le> b" and "b \<le> 5"
  shows "(bin_id (five_bins m) (real r) = b) = ((b - 1) * m < r \<and> r \<le> b * m)"
proof -
  from assms(4,5) consider "b = 1" | "b = 2" | "b = 3" | "b = 4" | "b = 5" by linarith
  then show ?thesis
  proof cases
    case 1
    then show ?thesis
      unfolding bin_id_five [OF assms(1-3)] using assms(1-3) by (auto split: if_splits)
  next
    case 2
    then show ?thesis
      unfolding bin_id_five [OF assms(1-3)] using assms(1-3) by (auto split: if_splits)
  next
    case 3
    then show ?thesis
      unfolding bin_id_five [OF assms(1-3)] using assms(1-3) by (auto split: if_splits)
  next
    case 4
    then show ?thesis
      unfolding bin_id_five [OF assms(1-3)] using assms(1-3) by (auto split: if_splits)
  next
    case 5
    then show ?thesis
      unfolding bin_id_five [OF assms(1-3)] using assms(1-3) by (auto split: if_splits)
  qed
qed

lemma five_bins_distinct: "0 < m \<Longrightarrow> distinct (five_bins m)"
proof -
  assume "0 < m"
  then have "1 \<le> real m" by simp
  then show ?thesis by (simp add: five_bins_def)
qed

lemma bucket_card:
  assumes "0 < m" and "1 \<le> b" and "b \<le> 5"
  shows "card {r \<in> {1..5 * m}. (b - 1) * m < r \<and> r \<le> b * m} = m"
proof -
  have le: "b * m \<le> 5 * m" using assms(3) by simp
  have "{r \<in> {1..5 * m}. (b - 1) * m < r \<and> r \<le> b * m} = {Suc ((b - 1) * m)..b * m}"
  proof (intro set_eqI iffI)
    fix r assume "r \<in> {r \<in> {1..5 * m}. (b - 1) * m < r \<and> r \<le> b * m}"
    then show "r \<in> {Suc ((b - 1) * m)..b * m}" by simp
  next
    fix r assume a: "r \<in> {Suc ((b - 1) * m)..b * m}"
    then have "r \<le> 5 * m" using le by (simp only: atLeastAtMost_iff) linarith
    with a show "r \<in> {r \<in> {1..5 * m}. (b - 1) * m < r \<and> r \<le> b * m}" by simp
  qed
  moreover have "b * m - (b - 1) * m = m"
    using assms(2) by (simp add: diff_mult_distrib [symmetric])
  ultimately show ?thesis by simp
qed

lemma qcut_bins_ranks:
  assumes n: "length col = 5 * m" and m: "0 < m" and some: "\<forall>i<length col. col ! i \<noteq> None"
  shows "qcut_bins (List.map_filter id (rank_first col)) = five_bins m"
proof -
  have "sort (List.map_filter id (rank_first col)) = map real [1..<Suc (length col)]"
    unfolding rank_values [OF some] sorted_ranks [OF some] ..
  then have "sort (List.map_filter id (rank_first col)) = map real [1..<Suc (5 * m)]"
    by (simp only: n)
  from qcut_bins_five [OF m this] show ?thesis by (simp add: five_bins_def)
qed

lemma score_five:
  assumes n: "length col = 5 * m" and m: "0 < m" and some: "\<forall>i<length col. col ! i \<noteq> None"
  shows "score col labels
           = Inr (map (\<lambda>i. labels ! (bin_id (five_bins m) (real (rank_at col i)) - 1))
                    [0..<length col])"
proof -
  let ?b = "\<lambda>i. bin_id (five_bins m) (real (rank_at col i))"
  have bins: "qcut_bins (List.map_filter id (rank_first col)) = five_bins m"
    using qcut_bins_ranks [OF assms] .
  have ne: "List.map_filter id (rank_first col) \<noteq> []"
    unfolding rank_values [OF some] using n m by simp
  have rng: "1 \<le> ?b i \<and> ?b i \<le> 5" if "i < length col" for i
  proof -
    from that some obtain v where "col ! i = Some v" by auto
    from rank_at_bounds [OF that this] show ?thesis
      using bin_id_five_range [OF m, of "rank_at col i"] n by simp
  qed
  have cat: "map (\<lambda>xo. case xo of None \<Rightarrow> None
               | Some v \<Rightarrow> (let i = bin_id (five_bins m) v
                            in if i = 0 \<or> i = length (five_bins m) then None
                               else Some (labels ! (i - 1))))
               (rank_first col)
             = map (\<lambda>i. Some (labels ! (?b i - 1))) [0..<length col]"
    unfolding rank_first_all_Some [OF some] map_map
  proof (rule map_cong [OF refl])
    fix i assume "i \<in> set [0..<length col]"
    then have "i < length col" by simp
    from rng [OF this] have "?b i \<noteq> 0" "?b i \<noteq> 6" by auto
    then show "((\<lambda>xo. case xo of None \<Rightarrow> None
               | Some v \<Rightarrow> (let i = bin_id (five_bins m) v
                            in if i = 0 \<or> i = length (five_bins m) then None
                               else Some (labels ! (i - 1)))) \<circ>
           (\<lambda>i. Some (real (rank_at col i)))) i = Some (labels ! (?b i - 1))"
      by (simp add: five_bins_def Let_def)
  qed
  have q: "qcut (rank_first col) labels
             = Inr (map (\<lambda>i. Some (labels ! (?b i - 1))) [0..<length col])"
    unfolding qcut_def Let_def bins using ne five_bins_distinct [OF m] cat [unfolded Let_def]
    by simp
  have a: "astype_int (map (\<lambda>i. Some (labels ! (?b i - 1))) [0..<length col])
             = Inr (map (\<lambda>i. labels ! (?b i - 1)) [0..<length col])"
  proof -
    have "List.map_filter id (map (\<lambda>i. Some (f i)) xs) = map f xs" for f :: "nat \<Rightarrow> int" and xs
      by (induction xs) (simp_all add: List.map_filter_simps)
    then show ?thesis by (auto simp: astype_int_def)
  qed
  show ?thesis unfolding score_def q by (simp only: a sum.case)
qed

lemma bucket_count:
  assumes n: "length col = 5 * m" and m: "0 < m" and some: "\<forall>i<length col. col ! i \<noteq> None"
    and b: "1 \<le> b" "b \<le> 5"
  shows "length (filter (\<lambda>i. bin_id (five_bins m) (real (rank_at col i)) = b) [0..<length col])
           = m"
proof -
  let ?Q = "\<lambda>r. (b - 1) * m < r \<and> r \<le> b * m"
  let ?I = "{i \<in> {0..<length col}. ?Q (rank_at col i)}"
  have iff: "(bin_id (five_bins m) (real (rank_at col i)) = b) = ?Q (rank_at col i)"
    if "i < length col" for i
  proof -
    from that some obtain v where "col ! i = Some v" by auto
    from rank_at_bounds [OF that this] show ?thesis
      using bin_id_five_iff [OF m _ _ b, of "rank_at col i"] n by simp
  qed
  have "filter (\<lambda>i. bin_id (five_bins m) (real (rank_at col i)) = b) [0..<length col]
          = filter (\<lambda>i. ?Q (rank_at col i)) [0..<length col]"
    by (rule filter_cong [OF refl]) (simp add: iff)
  then have "length (filter (\<lambda>i. bin_id (five_bins m) (real (rank_at col i)) = b)
                [0..<length col]) = card ?I"
    by (simp add: distinct_length_filter Int_def conj_commute)
  also have "\<dots> = card (rank_at col ` ?I)"
  proof -
    have "inj_on (rank_at col) ?I"
      by (rule inj_on_subset [OF rank_at_inj [OF some]]) auto
    then show ?thesis by (simp add: card_image)
  qed
  also have "rank_at col ` ?I = {r \<in> {1..5 * m}. ?Q r}"
  proof (intro set_eqI iffI)
    fix r assume "r \<in> rank_at col ` ?I"
    then obtain i where i: "i \<in> {0..<length col}" "?Q (rank_at col i)" "r = rank_at col i"
      by auto
    then have "r \<in> rank_at col ` {0..<length col}" by simp
    then have "r \<in> {1..length col}" unfolding rank_at_image [OF some] .
    then have "r \<in> {1..5 * m}" by (simp only: n)
    with i show "r \<in> {r \<in> {1..5 * m}. ?Q r}" by simp
  next
    fix r assume r: "r \<in> {r \<in> {1..5 * m}. ?Q r}"
    then have "r \<in> {1..length col}" by (simp add: n)
    then have "r \<in> rank_at col ` {0..<length col}"
      unfolding rank_at_image [OF some] .
    then obtain i where "i \<in> {0..<length col}" "r = rank_at col i" by auto
    with r show "r \<in> rank_at col ` ?I" by auto
  qed
  also have "card {r \<in> {1..5 * m}. ?Q r} = m" using bucket_card [OF m b] .
  finally show ?thesis .
qed

lemma score_five_count:
  assumes n: "length col = 5 * m" and m: "0 < m" and some: "\<forall>i<length col. col ! i \<noteq> None"
    and k: "1 \<le> k" "k \<le> 5"
  shows "\<exists>s. score col [1, 2, 3, 4, 5] = Inr s \<and> length s = length col \<and>
           length (filter (\<lambda>i. s ! i = k) [0..<length col]) = m"
    and "\<exists>s. score col [5, 4, 3, 2, 1] = Inr s \<and> length s = length col \<and>
           length (filter (\<lambda>i. s ! i = k) [0..<length col]) = m"
proof -
  let ?b = "\<lambda>i. bin_id (five_bins m) (real (rank_at col i))"
  have rng: "1 \<le> ?b i \<and> ?b i \<le> 5" if "i < length col" for i
  proof -
    from that some obtain v where "col ! i = Some v" by auto
    from rank_at_bounds [OF that this] show ?thesis
      using bin_id_five_range [OF m, of "rank_at col i"] n by simp
  qed
  let ?sa = "map (\<lambda>i. [1, 2, 3, 4, 5 :: int] ! (?b i - 1)) [0..<length col]"
  let ?sd = "map (\<lambda>i. [5, 4, 3, 2, 1 :: int] ! (?b i - 1)) [0..<length col]"
  have "filter (\<lambda>i. ?sa ! i = k) [0..<length col]
          = filter (\<lambda>i. ?b i = nat k) [0..<length col]"
  proof (rule filter_cong [OF refl])
    fix i assume "i \<in> set [0..<length col]"
    then have i: "i < length col" by simp
    from rng [OF i] have "[1, 2, 3, 4, 5 :: int] ! (?b i - 1) = int (?b i)"
      using labels_asc by blast
    with i k show "(?sa ! i = k) = (?b i = nat k)" by auto
  qed
  moreover have "length (filter (\<lambda>i. ?b i = nat k) [0..<length col]) = m"
    using k by (intro bucket_count [OF n m some]) auto
  ultimately show "\<exists>s. score col [1, 2, 3, 4, 5] = Inr s \<and> length s = length col \<and>
           length (filter (\<lambda>i. s ! i = k) [0..<length col]) = m"
    using score_five [OF n m some, of "[1, 2, 3, 4, 5]"] by simp
  have "filter (\<lambda>i. ?sd ! i = k) [0..<length col]
          = filter (\<lambda>i. ?b i = nat (6 - k)) [0..<length col]"
  proof (rule filter_cong [OF refl])
    fix i assume "i \<in> set [0..<length col]"
    then have i: "i < length col" by simp
    from rng [OF i] have "[5, 4, 3, 2, 1 :: int] ! (?b i - 1) = 6 - int (?b i)"
      using labels_desc by blast
    with i k show "(?sd ! i = k) = (?b i = nat (6 - k))" by auto
  qed
  moreover have "length (filter (\<lambda>i. ?b i = nat (6 - k)) [0..<length col]) = m"
    using k by (intro bucket_count [OF n m some]) auto
  ultimately show "\<exists>s. score col [5, 4, 3, 2, 1] = Inr s \<and> length s = length col \<and>
           length (filter (\<lambda>i. s ! i = k) [0..<length col]) = m"
    using score_five [OF n m some, of "[5, 4, 3, 2, 1]"] by simp
qed

lemma score_tie:
  assumes "score col labels = Inr s" and "i < j" and "j < length col"
    and "col ! i = Some a" and "col ! j = Some a"
  shows "\<exists>bi bj. 1 \<le> bi \<and> bi \<le> bj \<and> bj \<le> (5::nat) \<and>
           s ! i = labels ! (bi - 1) \<and> s ! j = labels ! (bj - 1)"
proof -
  from assms(2,3) have i: "i < length col" by simp
  have "a < a \<or> (a = a \<and> i < j)" using assms(2) by simp
  from score_mono [OF assms(1) i assms(3) assms(4) assms(5) this] show ?thesis .
qed

lemma count_scored:
  "length (filter (\<lambda>s. g s = k) (map f [0..<n])) = length (filter (\<lambda>i. g (f i) = k) [0..<n])"
  by (simp add: filter_map o_def)

text \<open>
  C7, as the claim has it, fails: with six customers the buckets are not of equal size.
  Two customers share the recency score 5, and two share the frequency and monetary
  score 1; no score is held by 6/5 customers.
\<close>

theorem six_customers_unequal_buckets:
  "length ex_six_rfm = 6 \<and>
   map Recency ex_six_rfm = [Some 5, Some 4, Some 3, Some 2, Some 1, Some 0] \<and>
   map Frequency ex_six_rfm = [1, 1, 1, 1, 1, 1] \<and>
   rfm_scores ex_six_rfm = Inr (projr (rfm_scores ex_six_rfm)) \<and>
   map R_score (projr (rfm_scores ex_six_rfm)) = [1, 2, 3, 4, 5, 5] \<and>
   map F_score (projr (rfm_scores ex_six_rfm)) = [1, 1, 2, 3, 4, 5] \<and>
   map M_score (projr (rfm_scores ex_six_rfm)) = [1, 1, 2, 3, 4, 5]"
  by code_simp

text \<open>
  C7, amended. When the number n of scored customers is a positive multiple of 5 and
  every customer has a recency, each of the R, F and M scorings succeeds and gives each
  score 1 to 5 to exactly n/5 customers; of two customers with equal values the earlier
  one in the table is ranked first, so it has the higher or equal recency score and the
  lower or equal frequency and monetary score.
\<close>

theorem five_equal_buckets:
  assumes "length t = 5 * m" and "0 < m" and "\<forall>r \<in> set t. Recency r \<noteq> None"
  shows "\<exists>sc. rfm_scores t = Inr sc \<and> length sc = length t \<and>
           (\<forall>k. 1 \<le> k \<and> k \<le> 5 \<longrightarrow>
              length (filter (\<lambda>s. R_score s = k) sc) = m \<and>
              length (filter (\<lambda>s. F_score s = k) sc) = m \<and>
              length (filter (\<lambda>s. M_score s = k) sc) = m) \<and>
           (\<forall>i j. i < j \<and> j < length t \<longrightarrow>
              (Recency (t ! i) = Recency (t ! j) \<longrightarrow> R_score (sc ! j) \<le> R_score (sc ! i)) \<and>
              (Frequency (t ! i) = Frequency (t ! j) \<longrightarrow> F_score (sc ! i) \<le> F_score (sc ! j)) \<and>
              (Monetary (t ! i) = Monetary (t ! j) \<longrightarrow> M_score (sc ! i) \<le> M_score (sc ! j)))"
proof -
  let ?rc = "map Recency t"
  let ?fc = "map (\<lambda>r. Some (Frequency r)) t"
  let ?mc = "map (\<lambda>r. Some (Monetary r)) t"
  have lr: "length ?rc = 5 * m" and lf: "length ?fc = 5 * m" and lm: "length ?mc = 5 * m"
    using assms(1) by simp_all
  have sr: "\<forall>i<length ?rc. ?rc ! i \<noteq> None" using assms(3) by simp
  have sf: "\<forall>i<length ?fc. ?fc ! i \<noteq> None" by simp
  have sm: "\<forall>i<length ?mc. ?mc ! i \<noteq> None" by simp
  obtain rs where rs: "score ?rc [5, 4, 3, 2, 1] = Inr rs"
    using score_five [OF lr assms(2) sr] by blast
  obtain fs where fs: "score ?fc [1, 2, 3, 4, 5] = Inr fs"
    using score_five [OF lf assms(2) sf] by blast
  obtain ms where ms: "score ?mc [1, 2, 3, 4, 5] = Inr ms"
    using score_five [OF lm assms(2) sm] by blast
  let ?sc = "map (\<lambda>i. \<lparr>rfm = t ! i, R_score = rs ! i, F_score = fs ! i, M_score = ms ! i\<rparr>)
               [0..<length t]"
  have ok: "rfm_scores t = Inr ?sc" by (simp add: rfm_scores_def rs fs ms)
  have cnt: "length (filter (\<lambda>s. R_score s = k) ?sc) = m \<and>
             length (filter (\<lambda>s. F_score s = k) ?sc) = m \<and>
             length (filter (\<lambda>s. M_score s = k) ?sc) = m" if k: "1 \<le> k \<and> k \<le> 5" for k
  proof -
    from k have k1: "1 \<le> k" and k5: "k \<le> 5" by simp_all
    have "length (filter (\<lambda>i. rs ! i = k) [0..<length ?rc]) = m"
      using score_five_count(2) [OF lr assms(2) sr k1 k5] rs by auto
    moreover have "length (filter (\<lambda>i. fs ! i = k) [0..<length ?fc]) = m"
      using score_five_count(1) [OF lf assms(2) sf k1 k5] fs by auto
    moreover have "length (filter (\<lambda>i. ms ! i = k) [0..<length ?mc]) = m"
      using score_five_count(1) [OF lm assms(2) sm k1 k5] ms by auto
    ultimately show ?thesis by (simp add: filter_map o_def)
  qed
  have tie: "(Recency (t ! i) = Recency (t ! j) \<longrightarrow> R_score (?sc ! j) \<le> R_score (?sc ! i)) \<and>
             (Frequency (t ! i) = Frequency (t ! j) \<longrightarrow> F_score (?sc ! i) \<le> F_score (?sc ! j)) \<and>
             (Monetary (t ! i) = Monetary (t ! j) \<longrightarrow> M_score (?sc ! i) \<le> M_score (?sc ! j))"
    if ij: "i < j \<and> j < length t" for i j
  proof -
    from ij have i: "i < length t" and j: "j < length t" and lt: "i < j" by simp_all
    have p: "R_score (?sc ! i) = rs ! i" "R_score (?sc ! j) = rs ! j"
      "F_score (?sc ! i) = fs ! i" "F_score (?sc ! j) = fs ! j"
      "M_score (?sc ! i) = ms ! i" "M_score (?sc ! j) = ms ! j"
      using i j by simp_all
    have r: "rs ! j \<le> rs ! i" if e: "Recency (t ! i) = Recency (t ! j)"
    proof -
      from assms(3) i obtain a where a: "Recency (t ! i) = Some a" by (metis nth_mem not_None_eq)
      have jl: "j < length ?rc" using j by simp
      have ci: "?rc ! i = Some a" using i a by simp
      have cj: "?rc ! j = Some a" using j a e by simp
      from score_tie [OF rs lt jl ci cj]
      obtain bi bj where b: "1 \<le> bi" "bi \<le> bj" "bj \<le> (5::nat)"
        "rs ! i = [5, 4, 3, 2, 1] ! (bi - 1)" "rs ! j = [5, 4, 3, 2, 1] ! (bj - 1)" by blast
      have "rs ! i = 6 - int bi" using b labels_desc [of bi] by simp
      moreover have "rs ! j = 6 - int bj" using b labels_desc [of bj] by simp
      ultimately show ?thesis using b(2) by simp
    qed
    have f: "fs ! i \<le> fs ! j" if e: "Frequency (t ! i) = Frequency (t ! j)"
    proof -
      have jl: "j < length ?fc" using j by simp
      have ci: "?fc ! i = Some (Frequency (t ! i))" using i by simp
      have cj: "?fc ! j = Some (Frequency (t ! i))" using j e by simp
      from score_tie [OF fs lt jl ci cj]
      obtain bi bj where b: "1 \<le> bi" "bi \<le> bj" "bj \<le> (5::nat)"
        "fs ! i = [1, 2, 3, 4, 5] ! (bi - 1)" "fs ! j = [1, 2, 3, 4, 5] ! (bj - 1)" by blast
      have "fs ! i = int bi" using b labels_asc [of bi] by simp
      moreover have "fs ! j = int bj" using b labels_asc [of bj] by simp
      ultimately show ?thesis using b(2) by simp
    qed
    have mo: "ms ! i \<le> ms ! j" if e: "Monetary (t ! i) = Monetary (t ! j)"
    proof -
      have jl: "j < length ?mc" using j by simp
      have ci: "?mc ! i = Some (Monetary (t ! i))" using i by simp
      have cj: "?mc ! j = Some (Monetary (t ! i))" using j e by simp
      from score_tie [OF ms lt jl ci cj]
      obtain bi bj where b: "1 \<le> bi" "bi \<le> bj" "bj \<le> (5::nat)"
        "ms ! i = [1, 2, 3, 4, 5] ! (bi - 1)" "ms ! j = [1, 2, 3, 4, 5] ! (bj - 1)" by blast
      have "ms ! i = int bi" using b labels_asc [of bi] by simp
      moreover have "ms ! j = int bj" using b labels_asc [of bj] by simp
      ultimately show ?thesis using b(2) by simp
    qed
    show ?thesis unfolding p using r f mo by blast
  qed
  have len: "length ?sc = length t" by simp
  show ?thesis
    by (rule exI [of _ ?sc]) (use ok len cnt tie in blast)
qed

text \<open>Five customers of equal frequency: each score is held by one customer.\<close>

theorem five_equal_buckets_witness:
  "length ex_five_rfm = 5 * 1 \<and>
   map Recency ex_five_rfm = [Some 4, Some 3, Some 2, Some 1, Some 0] \<and>
   map Frequency ex_five_rfm = [1, 1, 1, 1, 1] \<and>
   rfm_scores ex_five_rfm = Inr (projr (rfm_scores ex_five_rfm)) \<and>
   length (filter (\<lambda>s. R_score s = 5) (projr (rfm_scores ex_five_rfm))) = 1 \<and>
   length (filter (\<lambda>s. F_score s = 1) (projr (rfm_scores ex_five_rfm))) = 1 \<and>
   length (filter (\<lambda>s. M_score s = 3) (projr (rfm_scores ex_five_rfm))) = 1 \<and>
   F_score (projr (rfm_scores ex_five_rfm) ! 0) \<le> F_score (projr (rfm_scores ex_five_rfm) ! 1)"
proof -
  have l: "length ex_five_rfm = 5 * 1" by code_simp
  have m: "(0::nat) < 1" by simp
  have r: "\<forall>r \<in> set ex_five_rfm. Recency r \<noteq> None" by code_simp
  have rr: "map Recency ex_five_rfm = [Some 4, Some 3, Some 2, Some 1, Some 0]" by code_simp
  have ff: "map Frequency ex_five_rfm = [1, 1, 1, 1, 1]" by code_simp
  have f: "Frequency (ex_five_rfm ! 0) = Frequency (ex_five_rfm ! 1)" by code_simp
  have e: "rfm_scores ex_five_rfm = Inr (projr (rfm_scores ex_five_rfm))" by code_simp
  from five_equal_buckets [OF l m r] obtain sc where
    sc: "rfm_scores ex_five_rfm = Inr sc"
    and cnt: "\<forall>k. 1 \<le> k \<and> k \<le> 5 \<longrightarrow>
              length (filter (\<lambda>s. R_score s = k) sc) = 1 \<and>
              length (filter (\<lambda>s. F_score s = k) sc) = 1 \<and>
              length (filter (\<lambda>s. M_score s = k) sc) = 1"
    and tie: "\<forall>i j. i < j \<and> j < length ex_five_rfm \<longrightarrow>
              (Recency (ex_five_rfm ! i) = Recency (ex_five_rfm ! j)
                 \<longrightarrow> R_score (sc ! j) \<le> R_score (sc ! i)) \<and>
              (Frequency (ex_five_rfm ! i) = Frequency (ex_five_rfm ! j)
                 \<longrightarrow> F_score (sc ! i) \<le> F_score (sc ! j)) \<and>
              (Monetary (ex_five_rfm ! i) = Monetary (ex_five_rfm ! j)
                 \<longrightarrow> M_score (sc ! i) \<le> M_score (sc ! j))"
    by blast
  from sc e have s: "sc = projr (rfm_scores ex_five_rfm)" by simp
  have c5: "length (filter (\<lambda>s. R_score s = 5) sc) = 1" using cnt by simp
  have c1: "length (filter (\<lambda>s. F_score s = 1) sc) = 1" using cnt by simp
  have c3: "length (filter (\<lambda>s. M_score s = 3) sc) = 1" using cnt by simp
  have "(0::nat) < 1 \<and> 1 < length ex_five_rfm" using l by simp
  with tie f have t: "F_score (sc ! 0) \<le> F_score (sc ! 1)" by blast
  show ?thesis using l rr ff e c5 c1 c3 t unfolding s by simp
qed

end
